theory Spec2Isabelle
  imports Main "HOL-Library.AList" "HOL-Library.Sublist"
begin

section \<open>The graph container (core/DAG.ts)\<close>

text \<open>
  The class keeps three private tables: \<open>nodeMap\<close> (id to payload), \<open>outgoing\<close> and
  \<open>incoming\<close> (id to a set of ids). A JavaScript \<open>Map\<close> iterates in insertion order and
  \<open>Map.set\<close> on a present key keeps the key's position, which is what an association list
  with \<open>AList.update\<close> does; a JavaScript \<open>Set\<close> is a list without repetition that grows
  at its end. The key type is a parameter: equality of keys is HOL equality, which is both
  the \<open>===\<close> of the source and the key equality of \<open>Map\<close> for every string, symbol and
  number other than \<open>NaN\<close>.
\<close>

record ('k, 'v) dag =
  nodeMap :: "('k \<times> 'v) list"
  outgoing :: "('k \<times> 'k list) list"
  incoming :: "('k \<times> 'k list) list"

datatype 'k dag_error =
    NodeAlreadyExists 'k
  | NodeDoesNotExist 'k
  | SelfLoop 'k 'k
  | CreatesCycle 'k 'k
  | CycleDetected
  | MissingAdjacency 'k

definition empty_dag :: "('k, 'v) dag" where
  "empty_dag = \<lparr>nodeMap = [], outgoing = [], incoming = []\<rparr>"

text \<open>\<open>Set.add\<close> and \<open>Set.delete\<close> on the list representation.\<close>

definition set_add :: "'a \<Rightarrow> 'a list \<Rightarrow> 'a list" where
  "set_add x xs = (if x \<in> set xs then xs else xs @ [x])"

definition set_delete :: "'a \<Rightarrow> 'a list \<Rightarrow> 'a list" where
  "set_delete x xs = removeAll x xs"

definition size_dag :: "('k, 'v) dag \<Rightarrow> nat" where
  "size_dag d = length (nodeMap d)"

definition edgeSize :: "('k, 'v) dag \<Rightarrow> nat" where
  "edgeSize d = fold (\<lambda>(k, targets) count. count + length targets) (outgoing d) 0"

definition hasNode :: "('k, 'v) dag \<Rightarrow> 'k \<Rightarrow> bool" where
  "hasNode d k = (map_of (nodeMap d) k \<noteq> None)"

text \<open>
  A method that can throw returns the error (if any) together with the graph as it is when
  the call ends, so that what a failed call leaves behind is part of the model.
\<close>

definition addNode :: "'k \<Rightarrow> 'v \<Rightarrow> ('k, 'v) dag \<Rightarrow> 'k dag_error option \<times> ('k, 'v) dag" where
  "addNode k v d =
     (if hasNode d k then (Some (NodeAlreadyExists k), d)
      else (None, d\<lparr>nodeMap := AList.update k v (nodeMap d),
                     outgoing := AList.update k [] (outgoing d),
                     incoming := AList.update k [] (incoming d)\<rparr>))"

definition upsertNode :: "'k \<Rightarrow> 'v \<Rightarrow> ('k, 'v) dag \<Rightarrow> ('k, 'v) dag" where
  "upsertNode k v d =
     (let d1 = (if \<not> hasNode d k
                then d\<lparr>outgoing := AList.update k [] (outgoing d),
                        incoming := AList.update k [] (incoming d)\<rparr>
                else d)
      in d1\<lparr>nodeMap := AList.update k v (nodeMap d1)\<rparr>)"

definition getNodeValue :: "('k, 'v) dag \<Rightarrow> 'k \<Rightarrow> 'v option" where
  "getNodeValue d k = map_of (nodeMap d) k"

definition setNodeValue :: "'k \<Rightarrow> 'v \<Rightarrow> ('k, 'v) dag \<Rightarrow> 'k dag_error option \<times> ('k, 'v) dag" where
  "setNodeValue k v d =
     (if \<not> hasNode d k then (Some (NodeDoesNotExist k), d)
      else (None, d\<lparr>nodeMap := AList.update k v (nodeMap d)\<rparr>))"

text \<open>\<open>table.get(k)?.delete(x)\<close>: nothing happens when \<open>k\<close> has no entry.\<close>

definition detach :: "'k \<Rightarrow> 'k \<Rightarrow> ('k \<times> 'k list) list \<Rightarrow> ('k \<times> 'k list) list" where
  "detach x k table =
     (case map_of table k of
        None \<Rightarrow> table
      | Some s \<Rightarrow> AList.update k (set_delete x s) table)"

definition removeNode :: "'k \<Rightarrow> ('k, 'v) dag \<Rightarrow> bool \<times> ('k, 'v) dag" where
  "removeNode k d =
     (if \<not> hasNode d k then (False, d)
      else
        let out1 = (case map_of (incoming d) k of
                      None \<Rightarrow> outgoing d
                    | Some parents \<Rightarrow> fold (detach k) parents (outgoing d));
            in1 = (case map_of out1 k of
                     None \<Rightarrow> incoming d
                   | Some children \<Rightarrow> fold (detach k) children (incoming d))
        in (True, \<lparr>nodeMap = AList.delete k (nodeMap d),
                   outgoing = AList.delete k out1,
                   incoming = AList.delete k in1\<rparr>))"

definition clear :: "('k, 'v) dag \<Rightarrow> ('k, 'v) dag" where
  "clear d = \<lparr>nodeMap = [], outgoing = [], incoming = []\<rparr>"

definition hasEdge :: "('k, 'v) dag \<Rightarrow> 'k \<Rightarrow> 'k \<Rightarrow> bool" where
  "hasEdge d f t = (case map_of (outgoing d) f of None \<Rightarrow> False | Some targets \<Rightarrow> t \<in> set targets)"

subsection \<open>Reachability: \<open>hasPath\<close>\<close>

text \<open>
  The inner \<open>for (const next of nextSet)\<close> loop of \<open>hasPath\<close>: \<open>None\<close> is the early
  \<open>return true\<close>, otherwise the visited set and the stack after the loop. The stack is kept
  with its top first: \<open>push\<close> is \<open>#\<close> and \<open>pop\<close> takes the head.
\<close>

fun hasPath_scan :: "'k \<Rightarrow> 'k list \<Rightarrow> 'k list \<times> 'k list \<Rightarrow> ('k list \<times> 'k list) option" where
  "hasPath_scan to [] (visited, stack) = Some (visited, stack)"
| "hasPath_scan to (n # ns) (visited, stack) =
     (if n = to then None
      else if n \<notin> set visited then hasPath_scan to ns (visited @ [n], n # stack)
      else hasPath_scan to ns (visited, stack))"

definition targets_of :: "('k \<times> 'k list) list \<Rightarrow> 'k set" where
  "targets_of table = (\<Union>p \<in> set table. set (snd p))"

lemma finite_targets_of: "finite (targets_of table)"
  by (simp add: targets_of_def)

lemma map_of_targets_of: "map_of table k = Some s \<Longrightarrow> set s \<subseteq> targets_of table"
  by (auto simp: targets_of_def dest!: map_of_SomeD)

lemma hasPath_scan_measure:
  "hasPath_scan to ns (v, s) = Some (v', s') \<Longrightarrow> set ns \<subseteq> U \<Longrightarrow> finite U \<Longrightarrow>
   2 * card (U - set v') + length s' \<le> 2 * card (U - set v) + length s"
proof (induction ns arbitrary: v s)
  case Nil
  then show ?case by simp
next
  case (Cons n ns)
  show ?case
  proof (cases "n \<in> set v")
    case True
    with Cons show ?thesis by (auto split: if_splits)
  next
    case False
    from Cons.prems False have neq: "n \<noteq> to"
      and rec: "hasPath_scan to ns (v @ [n], n # s) = Some (v', s')"
      by (auto split: if_splits)
    have "2 * card (U - set v') + length s' \<le> 2 * card (U - set (v @ [n])) + length (n # s)"
      using Cons.IH [OF rec] Cons.prems by simp
    moreover have "card (U - set (v @ [n])) < card (U - set v)"
    proof (rule psubset_card_mono)
      show "finite (U - set v)" using Cons.prems by simp
      show "U - set (v @ [n]) \<subset> U - set v" using False Cons.prems by auto
    qed
    ultimately show ?thesis by simp
  qed
qed

function hasPath_loop :: "('k \<times> 'k list) list \<Rightarrow> 'k \<Rightarrow> 'k list \<Rightarrow> 'k list \<Rightarrow> bool" where
  "hasPath_loop table to visited [] = False"
| "hasPath_loop table to visited (current # stack) =
     (case map_of table current of
        None \<Rightarrow> hasPath_loop table to visited stack
      | Some nextSet \<Rightarrow>
          (case hasPath_scan to nextSet (visited, stack) of
             None \<Rightarrow> True
           | Some (visited', stack') \<Rightarrow> hasPath_loop table to visited' stack'))"
  by pat_completeness auto

termination
proof (relation "measure (\<lambda>(table, to, visited, stack).
                   2 * card (targets_of table - set visited) + length stack)")
  show "wf (measure (\<lambda>(table, to, visited, stack).
                   2 * card (targets_of table - set visited) + length stack))"
    by simp
next
  fix table :: "('k \<times> 'k list) list" and to :: 'k and visited stack :: "'k list" and current :: 'k
  show "((table, to, visited, stack), (table, to, visited, current # stack))
        \<in> measure (\<lambda>(table, to, visited, stack).
                   2 * card (targets_of table - set visited) + length stack)"
    by simp
next
  fix table :: "('k \<times> 'k list) list" and to current :: 'k
    and visited stack nextSet visited' stack' :: "'k list" and x2
  assume "map_of table current = Some nextSet"
    and "hasPath_scan to nextSet (visited, stack) = Some x2"
    and "(visited', stack') = x2"
  then have "2 * card (targets_of table - set visited') + length stack'
             \<le> 2 * card (targets_of table - set visited) + length stack"
    using hasPath_scan_measure [of to nextSet visited stack visited' stack' "targets_of table"]
    by (simp add: map_of_targets_of finite_targets_of)
  then show "((table, to, visited', stack'), (table, to, visited, current # stack))
        \<in> measure (\<lambda>(table, to, visited, stack).
                   2 * card (targets_of table - set visited) + length stack)"
    by simp
qed

definition hasPath :: "('k, 'v) dag \<Rightarrow> 'k \<Rightarrow> 'k \<Rightarrow> 'k dag_error + bool" where
  "hasPath d f t =
     (if \<not> hasNode d f then Inl (NodeDoesNotExist f)
      else if \<not> hasNode d t then Inl (NodeDoesNotExist t)
      else if f = t then Inr True
      else Inr (hasPath_loop (outgoing d) t [f] [f]))"

text \<open>
  \<open>this.outgoing.get(from)!\<close> asserts that the adjacency entry is there; were it not, the
  next line would raise a \<open>TypeError\<close>, which is \<open>MissingAdjacency\<close> here.
\<close>

definition addEdge :: "'k \<Rightarrow> 'k \<Rightarrow> ('k, 'v) dag \<Rightarrow> 'k dag_error option \<times> ('k, 'v) dag" where
  "addEdge f t d =
     (if \<not> hasNode d f then (Some (NodeDoesNotExist f), d)
      else if \<not> hasNode d t then (Some (NodeDoesNotExist t), d)
      else if f = t then (Some (SelfLoop f t), d)
      else
        (case map_of (outgoing d) f of
           None \<Rightarrow> (Some (MissingAdjacency f), d)
         | Some targets \<Rightarrow>
             if t \<in> set targets then (None, d)
             else
               (case hasPath d t f of
                  Inl e \<Rightarrow> (Some e, d)
                | Inr True \<Rightarrow> (Some (CreatesCycle f t), d)
                | Inr False \<Rightarrow>
                    (let d1 = d\<lparr>outgoing := AList.update f (set_add t targets) (outgoing d)\<rparr>
                     in case map_of (incoming d1) t of
                          None \<Rightarrow> (Some (MissingAdjacency t), d1)
                        | Some sources \<Rightarrow>
                            (None, d1\<lparr>incoming := AList.update t (set_add f sources) (incoming d1)\<rparr>)))))"

definition removeEdge :: "'k \<Rightarrow> 'k \<Rightarrow> ('k, 'v) dag \<Rightarrow> bool \<times> ('k, 'v) dag" where
  "removeEdge f t d =
     (case map_of (outgoing d) f of
        None \<Rightarrow> (False, d)
      | Some targets \<Rightarrow>
          if t \<notin> set targets then (False, d)
          else (True, d\<lparr>outgoing := AList.update f (set_delete t targets) (outgoing d),
                         incoming := detach f t (incoming d)\<rparr>))"

definition inDegree :: "('k, 'v) dag \<Rightarrow> 'k \<Rightarrow> 'k dag_error + nat" where
  "inDegree d k =
     (if \<not> hasNode d k then Inl (NodeDoesNotExist k)
      else case map_of (incoming d) k of None \<Rightarrow> Inl (MissingAdjacency k) | Some s \<Rightarrow> Inr (length s))"

definition outDegree :: "('k, 'v) dag \<Rightarrow> 'k \<Rightarrow> 'k dag_error + nat" where
  "outDegree d k =
     (if \<not> hasNode d k then Inl (NodeDoesNotExist k)
      else case map_of (outgoing d) k of None \<Rightarrow> Inl (MissingAdjacency k) | Some s \<Rightarrow> Inr (length s))"

definition predecessors :: "('k, 'v) dag \<Rightarrow> 'k \<Rightarrow> 'k dag_error + 'k list" where
  "predecessors d k =
     (if \<not> hasNode d k then Inl (NodeDoesNotExist k)
      else case map_of (incoming d) k of None \<Rightarrow> Inl (MissingAdjacency k) | Some s \<Rightarrow> Inr s)"

definition successors :: "('k, 'v) dag \<Rightarrow> 'k \<Rightarrow> 'k dag_error + 'k list" where
  "successors d k =
     (if \<not> hasNode d k then Inl (NodeDoesNotExist k)
      else case map_of (outgoing d) k of None \<Rightarrow> Inl (MissingAdjacency k) | Some s \<Rightarrow> Inr s)"

text \<open>\<open>table.get(id)?.size ?? 0\<close>\<close>

definition size_or_zero :: "('k \<times> 'k list) list \<Rightarrow> 'k \<Rightarrow> nat" where
  "size_or_zero table k = (case map_of table k of None \<Rightarrow> 0 | Some s \<Rightarrow> length s)"

definition roots :: "('k, 'v) dag \<Rightarrow> 'k list" where
  "roots d = filter (\<lambda>k. size_or_zero (incoming d) k = 0) (map fst (nodeMap d))"

definition leaves :: "('k, 'v) dag \<Rightarrow> 'k list" where
  "leaves d = filter (\<lambda>k. size_or_zero (outgoing d) k = 0) (map fst (nodeMap d))"

subsection \<open>Topological order: \<open>topologicalSort\<close>\<close>

text \<open>
  The in-degree table maps ids to JavaScript numbers that the loop decrements without a
  lower bound, so they are integers here. \<open>indegrees.get(next) ?? 0\<close> is \<open>degree_of\<close>.
\<close>

definition degree_of :: "('k \<times> int) list \<Rightarrow> 'k \<Rightarrow> int" where
  "degree_of indegrees k = (case map_of indegrees k of None \<Rightarrow> 0 | Some n \<Rightarrow> n)"

text \<open>One round of the inner \<open>for (const next of ...)\<close> loop of \<open>topologicalSort\<close>.\<close>

definition relax :: "'k \<Rightarrow> ('k \<times> int) list \<times> 'k list \<Rightarrow> ('k \<times> int) list \<times> 'k list" where
  "relax next = (\<lambda>(indegrees, queue).
     let nextDegree = degree_of indegrees next - 1;
         indegrees' = AList.update next nextDegree indegrees
     in (indegrees', if nextDegree = 0 then queue @ [next] else queue))"

definition pos_count :: "('k \<times> int) list \<Rightarrow> nat" where
  "pos_count indegrees = length (filter (\<lambda>p. 0 < snd p) indegrees)"

lemma pos_count_update:
  "pos_count (AList.update k v al) + (case map_of al k of None \<Rightarrow> 0 | Some n \<Rightarrow> if 0 < n then 1 else 0)
     = pos_count al + (if 0 < v then 1 else 0)"
  by (induction al) (auto simp: pos_count_def split: option.splits)

lemma relax_potential:
  "relax next (indegrees, queue) = (indegrees', queue') \<Longrightarrow>
   length queue' + pos_count indegrees' = length queue + pos_count indegrees"
  using pos_count_update [of "next" "degree_of indegrees next - 1" indegrees]
  by (auto simp: relax_def Let_def degree_of_def split: option.splits if_splits)

lemma fold_relax_potential:
  "fold relax ns (indegrees, queue) = (indegrees', queue') \<Longrightarrow>
   length queue' + pos_count indegrees' = length queue + pos_count indegrees"
proof (induction ns arbitrary: indegrees queue)
  case Nil
  then show ?case by simp
next
  case (Cons n ns)
  obtain i1 q1 where step: "relax n (indegrees, queue) = (i1, q1)"
    by (cases "relax n (indegrees, queue)")
  with Cons.prems have "fold relax ns (i1, q1) = (indegrees', queue')" by simp
  from Cons.IH [OF this] relax_potential [OF step] show ?case by simp
qed

definition targets_or_empty :: "('k \<times> 'k list) list \<Rightarrow> 'k \<Rightarrow> 'k list" where
  "targets_or_empty table k = (case map_of table k of None \<Rightarrow> [] | Some s \<Rightarrow> s)"

function kahn_loop ::
  "('k \<times> 'k list) list \<Rightarrow> ('k \<times> int) list \<Rightarrow> 'k list \<Rightarrow> nat \<Rightarrow> 'k list \<Rightarrow> 'k list" where
  "kahn_loop table indegrees queue index order =
     (if index < length queue then
        let current = queue ! index;
            r = fold relax (targets_or_empty table current) (indegrees, queue)
        in kahn_loop table (fst r) (snd r) (Suc index) (order @ [current])
      else order)"
  by pat_completeness auto

termination
proof (relation "measure (\<lambda>(table, indegrees, queue, index, order).
                   length queue + pos_count indegrees - index)")
  show "wf (measure (\<lambda>(table, indegrees, queue, index, order).
                   length queue + pos_count indegrees - index))"
    by simp
next
  fix table :: "('k \<times> 'k list) list" and indegrees :: "('k \<times> int) list"
    and queue order :: "'k list" and index :: nat and x xa
  assume lt: "index < length queue"
    and x: "x = queue ! index"
    and xa: "xa = fold relax (targets_or_empty table x) (indegrees, queue)"
  have "length (snd xa) + pos_count (fst xa) = length queue + pos_count indegrees"
    using fold_relax_potential [of "targets_or_empty table x" indegrees queue "fst xa" "snd xa"] xa
    by simp
  with lt show "((table, fst xa, snd xa, Suc index, order @ [x]), (table, indegrees, queue, index, order))
        \<in> measure (\<lambda>(table, indegrees, queue, index, order).
                   length queue + pos_count indegrees - index)"
    by simp
qed


definition topologicalSort :: "('k, 'v) dag \<Rightarrow> 'k dag_error + 'k list" where
  "topologicalSort d =
     (let indegrees = map (\<lambda>(k, v). (k, int (size_or_zero (incoming d) k))) (nodeMap d);
          queue = map fst (filter (\<lambda>(k, degree). degree = 0) indegrees);
          order = kahn_loop (outgoing d) indegrees queue 0 []
      in if length order \<noteq> size_dag d then Inl CycleDetected else Inr order)"

subsection \<open>Snapshots: \<open>nodes\<close>, \<open>edges\<close>, \<open>serialize\<close>, the constructor, \<open>clone\<close>\<close>





text \<open>
  The constructor's two loops. An exception leaves the constructor, so no graph is built:
  the result is the error alone.
\<close>

fun addNodes :: "('k \<times> 'v) list \<Rightarrow> ('k, 'v) dag \<Rightarrow> 'k dag_error + ('k, 'v) dag" where
  "addNodes [] d = Inr d"
| "addNodes ((k, v) # ns) d =
     (case addNode k v d of
        (Some e, _) \<Rightarrow> Inl e
      | (None, d') \<Rightarrow> addNodes ns d')"

fun addEdges :: "('k \<times> 'k) list \<Rightarrow> ('k, 'v) dag \<Rightarrow> 'k dag_error + ('k, 'v) dag" where
  "addEdges [] d = Inr d"
| "addEdges ((f, t) # es) d =
     (case addEdge f t d of
        (Some e, _) \<Rightarrow> Inl e
      | (None, d') \<Rightarrow> addEdges es d')"

definition new_dag :: "('k \<times> 'v) list \<Rightarrow> ('k \<times> 'k) list \<Rightarrow> 'k dag_error + ('k, 'v) dag" where
  "new_dag ns es = (case addNodes ns empty_dag of Inl e \<Rightarrow> Inl e | Inr d \<Rightarrow> addEdges es d)"



subsection \<open>Graphs built through the public methods\<close>

datatype ('k, 'v) dag_call =
    AddNode 'k 'v
  | UpsertNode 'k 'v
  | SetNodeValue 'k 'v
  | RemoveNode 'k
  | Clear
  | AddEdge 'k 'k
  | RemoveEdge 'k 'k

text \<open>The graph after one call, whether the call returned or threw.\<close>

fun after_call :: "('k, 'v) dag_call \<Rightarrow> ('k, 'v) dag \<Rightarrow> ('k, 'v) dag" where
  "after_call (AddNode k v) d = snd (addNode k v d)"
| "after_call (UpsertNode k v) d = upsertNode k v d"
| "after_call (SetNodeValue k v) d = snd (setNodeValue k v d)"
| "after_call (RemoveNode k) d = snd (removeNode k d)"
| "after_call Clear d = clear d"
| "after_call (AddEdge f t) d = snd (addEdge f t d)"
| "after_call (RemoveEdge f t) d = snd (removeEdge f t d)"

definition built :: "('k, 'v) dag_call list \<Rightarrow> ('k, 'v) dag" where
  "built calls = fold after_call calls empty_dag"

text \<open>The edge relation that an adjacency table stands for.\<close>

definition edges_of :: "('k \<times> 'k list) list \<Rightarrow> ('k \<times> 'k) set" where
  "edges_of table = {(f, t). \<exists>s. map_of table f = Some s \<and> t \<in> set s}"

definition edge_rel :: "('k, 'v) dag \<Rightarrow> ('k \<times> 'k) set" where
  "edge_rel d = edges_of (outgoing d)"

section \<open>Scripts and runtime state (core/types.ts)\<close>

type_synonym NodeId = string

text \<open>
  \<open>VariableValue\<close> is \<open>string | number | boolean\<close>; reading a variable that has no entry
  gives \<open>undefined\<close>. JavaScript numbers are IEEE doubles: their type \<open>'n\<close> and the
  primitives on them that the engine relies on (\<open>Number(s)\<close> of a string, \<open>NaN\<close>, the
  comparisons, addition, subtraction, truthiness) belong to the host language and are a
  parameter of the model, so that every theorem holds for whatever the host computes.
\<close>

datatype 'n jsval = VStr string | VNum 'n | VBool bool | VUndefined

record 'n host =
  parse_number :: "string \<Rightarrow> 'n"
  num_nan :: 'n
  num_zero :: 'n
  num_one :: 'n
  num_lt :: "'n \<Rightarrow> 'n \<Rightarrow> bool"
  num_le :: "'n \<Rightarrow> 'n \<Rightarrow> bool"
  num_eq :: "'n \<Rightarrow> 'n \<Rightarrow> bool"
  num_add :: "'n \<Rightarrow> 'n \<Rightarrow> 'n"
  num_sub :: "'n \<Rightarrow> 'n \<Rightarrow> 'n"
  num_truthy :: "'n \<Rightarrow> bool"

text \<open>\<open>Number(v)\<close>\<close>

fun to_number :: "'n host \<Rightarrow> 'n jsval \<Rightarrow> 'n" where
  "to_number J (VNum x) = x"
| "to_number J (VStr s) = parse_number J s"
| "to_number J (VBool b) = (if b then num_one J else num_zero J)"
| "to_number J VUndefined = num_nan J"

text \<open>Truthiness, as \<open>!v\<close> and \<open>v || 0\<close> use it.\<close>

fun truthy :: "'n host \<Rightarrow> 'n jsval \<Rightarrow> bool" where
  "truthy J (VNum x) = num_truthy J x"
| "truthy J (VStr s) = (s \<noteq> [])"
| "truthy J (VBool b) = b"
| "truthy J VUndefined = False"

text \<open>
  \<open>a == b\<close> on these values: operands of one type are compared as they are, \<open>undefined\<close>
  equals only itself, and operands of different types are both converted to numbers.
\<close>

fun loose_eq :: "'n host \<Rightarrow> 'n jsval \<Rightarrow> 'n jsval \<Rightarrow> bool" where
  "loose_eq J (VStr s) (VStr t) = (s = t)"
| "loose_eq J (VBool a) (VBool b) = (a = b)"
| "loose_eq J (VNum x) (VNum y) = num_eq J x y"
| "loose_eq J VUndefined VUndefined = True"
| "loose_eq J VUndefined b = False"
| "loose_eq J a VUndefined = False"
| "loose_eq J a b = num_eq J (to_number J a) (to_number J b)"

datatype VariableOperation = OpSet | OpAdd | OpSubtract | OpToggle

text \<open>
  The thirteen instructions. Optional fields are options; the fields of type \<open>unknown\<close>
  (\<open>params\<close> of a screen effect, \<open>metadata\<close> of a node) are read by no code and are left out.
\<close>

datatype 'n SceneCommand =
    Dialogue string "string option" string "string option"
  | Narration string
  | ShowCharacter string string string "string option" "'n option"
  | HideCharacter string "string option" "'n option"
  | SetBackground string "string option" "'n option"
  | PlayBGM string "bool option" "'n option" "'n option"
  | StopBGM "'n option"
  | PlaySE string "'n option"
  | PlayVoice string "string option"
  | SetVariable string "'n jsval" "VariableOperation option"
  | ShowEffect string "'n option"
  | Wait 'n
  | AIGenerate string "string option" "string list option" "'n option"

text \<open>
  The operator of a condition is one of six strings; \<open>evaluateCondition\<close> has a
  \<open>default\<close> branch for anything else, which is \<open>OtherOperator\<close>.
\<close>

datatype ConditionOperator = OpEq | OpNe | OpGt | OpLt | OpGe | OpLe | OtherOperator string

record 'n Condition =
  cond_variable :: string
  cond_operator :: ConditionOperator
  cond_value :: "'n jsval"

record 'n Choice =
  choice_text :: string
  choice_target :: NodeId
  choice_conditions :: "'n Condition list option"
  choice_effects :: "(string \<times> 'n jsval) list option"

datatype 'n Transition =
    AutoTransition NodeId
  | ChoiceTransition "string option" "'n Choice list"
  | ConditionalTransition "('n Condition list \<times> NodeId) list" "NodeId option"
  | EndTransition "string option" "string option"

record 'n SceneNodeData =
  title :: string
  description :: "string option"
  commands :: "'n SceneCommand list"
  transition :: "'n Transition option"
  tags :: "string list option"

record 'n VariableDefinition =
  var_key :: string
  defaultValue :: "'n jsval"
  var_description :: "string option"

record Character =
  char_id :: string
  char_name :: string
  nameColor :: "string option"
  avatar :: "string option"
  expressions :: "(string \<times> string) list"

record 'n GameScript =
  script_id :: string
  script_title :: string
  version :: string
  author :: "string option"
  characters :: "Character list"
  script_variables :: "'n VariableDefinition list"
  entryNodeId :: NodeId
  script_nodes :: "(NodeId \<times> 'n SceneNodeData) list"
  script_edges :: "(NodeId \<times> NodeId) list"

record HistoryEntry =
  entry_characterId :: "string option"
  entry_text :: string
  entry_timestamp :: nat

record 'n GameState =
  currentNodeId :: NodeId
  commandIndex :: nat
  variables :: "(string \<times> 'n jsval) list"
  visitedNodes :: "NodeId list"
  dialogueHistory :: "HistoryEntry list"
  savedAt :: "nat option"

section \<open>The playback engine (core/GalPlayDAG.ts)\<close>

text \<open>The messages of the error events, each with the ids or the index it prints.\<close>

datatype EngineError =
    NodeNotFound NodeId
  | NotAChoiceNode
  | InvalidChoiceIndex int
  | NoEntryNode
  | MultipleSuccessors NodeId
  | NoBranchMatched NodeId
  | TargetNotFound NodeId

datatype 'n GalEvent =
    Command "'n SceneCommand" nat NodeId
  | ChoiceRequest "string option" "('n Choice \<times> bool) list" NodeId
  | NodeEnd NodeId
  | Ending "string option" "string option" NodeId
  | AutoAdvance NodeId NodeId
  | StateChange "'n GameState"
  | Error EngineError

text \<open>
  The engine object. Listeners are not part of the state: every method returns the events
  it emits, in the order of emission, and a listener sees them in that order.
\<close>

record 'n engine =
  dag :: "(NodeId, 'n SceneNodeData) dag"
  state :: "'n GameState"
  characterTable :: "(string \<times> Character) list"
  variableDefs :: "(string \<times> 'n VariableDefinition) list"
  playing :: bool
  paused :: bool
  ended :: bool

definition createEmptyState :: "'n GameState" where
  "createEmptyState =
     \<lparr>currentNodeId = [], commandIndex = 0, variables = [], visitedNodes = [],
      dialogueHistory = [], savedAt = None\<rparr>"

definition new_engine :: "'n engine" where
  "new_engine =
     \<lparr>dag = empty_dag, state = createEmptyState, characterTable = [], variableDefs = [],
      playing = False, paused = False, ended = False\<rparr>"

definition loadScript :: "'n GameScript \<Rightarrow> 'n engine \<Rightarrow> NodeId dag_error + 'n engine" where
  "loadScript script e =
     (case new_dag (script_nodes script) (script_edges script) of
        Inl err \<Rightarrow> Inl err
      | Inr d \<Rightarrow>
          Inr \<lparr>dag = d,
               state = \<lparr>currentNodeId = entryNodeId script, commandIndex = 0,
                        variables = fold (\<lambda>def vars. AList.update (var_key def) (defaultValue def) vars)
                                      (script_variables script) [],
                        visitedNodes = [], dialogueHistory = [], savedAt = None\<rparr>,
               characterTable = fold (\<lambda>c table. AList.update (char_id c) c table)
                                  (characters script) [],
               variableDefs = fold (\<lambda>def table. AList.update (var_key def) def table)
                                (script_variables script) [],
               playing = False, paused = False, ended = False\<rparr>)"

definition getState :: "'n engine \<Rightarrow> 'n GameState" where
  "getState e = state e"

definition emitStateChange :: "'n engine \<Rightarrow> 'n GalEvent list" where
  "emitStateChange e = [StateChange (getState e)]"

text \<open>\<open>this.state.variables[key]\<close>\<close>

definition read_variable :: "(string \<times> 'n jsval) list \<Rightarrow> string \<Rightarrow> 'n jsval" where
  "read_variable vars key = (case map_of vars key of None \<Rightarrow> VUndefined | Some v \<Rightarrow> v)"

subsection \<open>Conditions\<close>

text \<open>On numbers, \<open>a > b\<close> is \<open>b < a\<close> and \<open>a >= b\<close> is \<open>b <= a\<close>, also when \<open>NaN\<close> is involved.\<close>

definition num_gt :: "'n host \<Rightarrow> 'n \<Rightarrow> 'n \<Rightarrow> bool" where
  "num_gt J a b = num_lt J b a"

definition num_ge :: "'n host \<Rightarrow> 'n \<Rightarrow> 'n \<Rightarrow> bool" where
  "num_ge J a b = num_le J b a"

definition evaluateCondition :: "'n host \<Rightarrow> (string \<times> 'n jsval) list \<Rightarrow> 'n Condition \<Rightarrow> bool" where
  "evaluateCondition J vars c =
     (let current = read_variable vars (cond_variable c);
          target = cond_value c
      in case cond_operator c of
           OpEq \<Rightarrow> loose_eq J current target
         | OpNe \<Rightarrow> \<not> loose_eq J current target
         | OpGt \<Rightarrow> num_gt J (to_number J current) (to_number J target)
         | OpLt \<Rightarrow> num_lt J (to_number J current) (to_number J target)
         | OpGe \<Rightarrow> num_ge J (to_number J current) (to_number J target)
         | OpLe \<Rightarrow> num_le J (to_number J current) (to_number J target)
         | OtherOperator s \<Rightarrow> False)"

definition evaluateConditions :: "'n host \<Rightarrow> (string \<times> 'n jsval) list \<Rightarrow> 'n Condition list \<Rightarrow> bool" where
  "evaluateConditions J vars conditions = list_all (evaluateCondition J vars) conditions"

definition evaluateChoiceVisible :: "'n host \<Rightarrow> (string \<times> 'n jsval) list \<Rightarrow> 'n Choice \<Rightarrow> bool" where
  "evaluateChoiceVisible J vars choice =
     (case choice_conditions choice of
        None \<Rightarrow> True
      | Some conditions \<Rightarrow> if length conditions = 0 then True else evaluateConditions J vars conditions)"

subsection \<open>Instructions\<close>

text \<open>\<open>Number(x) || 0\<close>\<close>

definition number_or_zero :: "'n host \<Rightarrow> 'n jsval \<Rightarrow> 'n" where
  "number_or_zero J v = (if num_truthy J (to_number J v) then to_number J v else num_zero J)"

definition applyVariable ::
  "'n host \<Rightarrow> string \<Rightarrow> 'n jsval \<Rightarrow> VariableOperation \<Rightarrow> (string \<times> 'n jsval) list \<Rightarrow> (string \<times> 'n jsval) list" where
  "applyVariable J key v operation vars =
     (case operation of
        OpSet \<Rightarrow> AList.update key v vars
      | OpAdd \<Rightarrow> AList.update key
                  (VNum (num_add J (number_or_zero J (read_variable vars key)) (to_number J v))) vars
      | OpSubtract \<Rightarrow> AList.update key
                  (VNum (num_sub J (number_or_zero J (read_variable vars key)) (to_number J v))) vars
      | OpToggle \<Rightarrow> AList.update key (VBool (\<not> truthy J (read_variable vars key))) vars)"

text \<open>\<open>Date.now()\<close> is the argument \<open>now\<close>.\<close>

definition executeCommand :: "'n host \<Rightarrow> nat \<Rightarrow> 'n SceneCommand \<Rightarrow> 'n engine \<Rightarrow> 'n GalEvent list \<times> 'n engine" where
  "executeCommand J now cmd e =
     (let s = state e;
          s1 = (case cmd of
                  Dialogue cid expr txt voice \<Rightarrow>
                    s\<lparr>dialogueHistory := dialogueHistory s @
                         [\<lparr>entry_characterId = Some cid, entry_text = txt, entry_timestamp = now\<rparr>]\<rparr>
                | Narration txt \<Rightarrow>
                    s\<lparr>dialogueHistory := dialogueHistory s @
                         [\<lparr>entry_characterId = None, entry_text = txt, entry_timestamp = now\<rparr>]\<rparr>
                | _ \<Rightarrow> s);
          s2 = (case cmd of
                  SetVariable key v operation \<Rightarrow>
                    s1\<lparr>variables := applyVariable J key v
                          (case operation of None \<Rightarrow> OpSet | Some p \<Rightarrow> p) (variables s1)\<rparr>
                | _ \<Rightarrow> s1)
      in ([Command cmd (commandIndex s2) (currentNodeId s2)], e\<lparr>state := s2\<rparr>))"

subsection \<open>Transitions\<close>

definition jumpToNode :: "NodeId \<Rightarrow> 'n engine \<Rightarrow> 'n GalEvent list \<times> 'n engine" where
  "jumpToNode targetId e =
     (if \<not> hasNode (dag e) targetId then ([Error (TargetNotFound targetId)], e)
      else
        let s = state e;
            s1 = (if currentNodeId s \<notin> set (visitedNodes s)
                  then s\<lparr>visitedNodes := visitedNodes s @ [currentNodeId s]\<rparr> else s);
            e' = e\<lparr>state := s1\<lparr>currentNodeId := targetId, commandIndex := 0\<rparr>\<rparr>
        in (emitStateChange e', e'))"

definition doEnding :: "string option \<Rightarrow> string option \<Rightarrow> 'n engine \<Rightarrow> 'n GalEvent list \<times> 'n engine" where
  "doEnding endingName endingType e =
     ([Ending endingName endingType (currentNodeId (state e))], e\<lparr>ended := True\<rparr>)"

definition handleAutoTransition :: "NodeId \<Rightarrow> 'n engine \<Rightarrow> 'n GalEvent list \<times> 'n engine" where
  "handleAutoTransition targetNodeId e =
     (let (evs, e') = jumpToNode targetNodeId e
      in (AutoAdvance (currentNodeId (state e)) targetNodeId # evs, e'))"

definition handleChoiceTransition ::
  "'n host \<Rightarrow> string option \<Rightarrow> 'n Choice list \<Rightarrow> 'n engine \<Rightarrow> 'n GalEvent list \<times> 'n engine" where
  "handleChoiceTransition J prompt choices e =
     ([ChoiceRequest prompt
         (map (\<lambda>c. (c, evaluateChoiceVisible J (variables (state e)) c)) choices)
         (currentNodeId (state e))], e)"

text \<open>
  The \<open>for (const branch of t.branches)\<close> loop with its early return; \<open>None\<close> when the
  loop ends without a match.
\<close>

fun first_matching_branch ::
  "'n host \<Rightarrow> (string \<times> 'n jsval) list \<Rightarrow> ('n Condition list \<times> NodeId) list \<Rightarrow> NodeId option" where
  "first_matching_branch J vars [] = None"
| "first_matching_branch J vars ((conditions, targetNodeId) # branches) =
     (if evaluateConditions J vars conditions then Some targetNodeId
      else first_matching_branch J vars branches)"

text \<open>\<open>if (t.fallbackNodeId)\<close>: an id that is absent or the empty string is falsy.\<close>

definition handleConditionalTransition ::
  "'n host \<Rightarrow> ('n Condition list \<times> NodeId) list \<Rightarrow> NodeId option \<Rightarrow> 'n engine
     \<Rightarrow> 'n GalEvent list \<times> 'n engine" where
  "handleConditionalTransition J branches fallbackNodeId e =
     (case first_matching_branch J (variables (state e)) branches of
        Some targetNodeId \<Rightarrow> jumpToNode targetNodeId e
      | None \<Rightarrow>
          (case fallbackNodeId of
             None \<Rightarrow> ([Error (NoBranchMatched (currentNodeId (state e)))], e)
           | Some fallback \<Rightarrow>
               if fallback \<noteq> [] then jumpToNode fallback e
               else ([Error (NoBranchMatched (currentNodeId (state e)))], e)))"

definition handleEndTransition :: "string option \<Rightarrow> string option \<Rightarrow> 'n engine \<Rightarrow> 'n GalEvent list \<times> 'n engine" where
  "handleEndTransition endingName endingType e = doEnding endingName endingType e"

text \<open>
  A step of the engine: the \<open>DAGError\<close> that escaped the call, if any, the events emitted
  and the engine afterwards. \<open>dag.successors\<close> is the only call of the engine that can throw.
\<close>

type_synonym 'n step = "NodeId dag_error option \<times> 'n GalEvent list \<times> 'n engine"

definition returned :: "'n GalEvent list \<times> 'n engine \<Rightarrow> 'n step" where
  "returned r = (None, fst r, snd r)"

definition handleTransition :: "'n host \<Rightarrow> 'n Transition option \<Rightarrow> 'n engine \<Rightarrow> 'n step" where
  "handleTransition J t e =
     (case t of
        None \<Rightarrow>
          (case successors (dag e) (currentNodeId (state e)) of
             Inl err \<Rightarrow> (Some err, [], e)
           | Inr succs \<Rightarrow>
               if length succs = 1 then returned (jumpToNode (succs ! 0) e)
               else if length succs = 0 then returned (doEnding None None e)
               else (None, [Error (MultipleSuccessors (currentNodeId (state e)))], e))
      | Some (AutoTransition targetNodeId) \<Rightarrow> returned (handleAutoTransition targetNodeId e)
      | Some (ChoiceTransition prompt choices) \<Rightarrow> returned (handleChoiceTransition J prompt choices e)
      | Some (ConditionalTransition branches fallbackNodeId) \<Rightarrow>
          returned (handleConditionalTransition J branches fallbackNodeId e)
      | Some (EndTransition endingName endingType) \<Rightarrow>
          returned (handleEndTransition endingName endingType e))"

subsection \<open>Playback control\<close>

definition "next" :: "'n host \<Rightarrow> nat \<Rightarrow> 'n engine \<Rightarrow> 'n step" where
  "next J now e =
     (if ended e then (None, [], e)
      else if paused e then (None, [], e)
      else
        (case getNodeValue (dag e) (currentNodeId (state e)) of
           None \<Rightarrow> (None, [Error (NodeNotFound (currentNodeId (state e)))], e)
         | Some nodeData \<Rightarrow>
             if commandIndex (state e) < length (commands nodeData) then
               (let cmd = commands nodeData ! commandIndex (state e);
                    (evs, e1) = executeCommand J now cmd e;
                    e2 = e1\<lparr>state := (state e1)\<lparr>commandIndex := commandIndex (state e1) + 1\<rparr>\<rparr>
                in (None, evs @ emitStateChange e2, e2))
             else
               (let (thrown, evs, e') = handleTransition J (transition nodeData) e
                in (thrown, NodeEnd (currentNodeId (state e)) # evs, e'))))"

text \<open>The block \<open>if (choice.effects) { for (const effect of choice.effects) ... }\<close>.\<close>

definition apply_effects :: "'n Choice \<Rightarrow> (string \<times> 'n jsval) list \<Rightarrow> (string \<times> 'n jsval) list" where
  "apply_effects choice vars =
     (case choice_effects choice of
        None \<Rightarrow> vars
      | Some effects \<Rightarrow> fold (\<lambda>(key, v) vars. AList.update key v vars) effects vars)"

definition selectChoice :: "'n host \<Rightarrow> int \<Rightarrow> 'n engine \<Rightarrow> 'n GalEvent list \<times> 'n engine" where
  "selectChoice J choiceIndex e =
     (case getNodeValue (dag e) (currentNodeId (state e)) of
        None \<Rightarrow> ([Error NotAChoiceNode], e)
      | Some nodeData \<Rightarrow>
          (case transition nodeData of
             Some (ChoiceTransition prompt choices) \<Rightarrow>
               (let visibleChoices = filter (evaluateChoiceVisible J (variables (state e))) choices
                in if choiceIndex < 0 \<or> choiceIndex \<ge> int (length visibleChoices)
                   then ([Error (InvalidChoiceIndex choiceIndex)], e)
                   else
                     let choice = visibleChoices ! nat choiceIndex;
                         e1 = e\<lparr>state := (state e)\<lparr>variables := apply_effects choice (variables (state e))\<rparr>\<rparr>
                     in jumpToNode (choice_target choice) e1)
           | _ \<Rightarrow> ([Error NotAChoiceNode], e)))"

definition pause :: "'n engine \<Rightarrow> 'n engine" where
  "pause e = e\<lparr>paused := True\<rparr>"

definition resume :: "'n engine \<Rightarrow> 'n engine" where
  "resume e = e\<lparr>paused := False\<rparr>"

definition restart :: "NodeId option \<Rightarrow> 'n engine \<Rightarrow> 'n GalEvent list \<times> 'n engine" where
  "restart entryArg e =
     (let entry = (case entryArg of
                     Some n \<Rightarrow> Some n
                   | None \<Rightarrow> (case roots (dag e) of [] \<Rightarrow> None | r # rs \<Rightarrow> Some r))
      in case entry of
           None \<Rightarrow> ([Error NoEntryNode], e)
         | Some n \<Rightarrow>
             if n = [] then ([Error NoEntryNode], e)
             else
               let e' = e\<lparr>state := \<lparr>currentNodeId = n, commandIndex = 0,
                                      variables = map (\<lambda>(key, def). (key, defaultValue def)) (variableDefs e),
                                      visitedNodes = [], dialogueHistory = [], savedAt = None\<rparr>,
                           playing := False, paused := False, ended := False\<rparr>
               in (emitStateChange e', e'))"

definition loadState :: "'n GameState \<Rightarrow> 'n engine \<Rightarrow> 'n GalEvent list \<times> 'n engine" where
  "loadState saved e =
     (let e' = e\<lparr>state := saved, ended := False, paused := False\<rparr>
      in (emitStateChange e', e'))"

definition save :: "nat \<Rightarrow> 'n engine \<Rightarrow> 'n GameState" where
  "save now e = (getState e)\<lparr>savedAt := Some now\<rparr>"

definition getVariable :: "'n engine \<Rightarrow> string \<Rightarrow> 'n jsval" where
  "getVariable e key = read_variable (variables (state e)) key"


text \<open>A caller that presses on: one \<open>next\<close> per time stamp, the events of each call kept apart.\<close>

fun advance_times :: "'n host \<Rightarrow> nat list \<Rightarrow> 'n engine \<Rightarrow> 'n GalEvent list list \<times> 'n engine" where
  "advance_times J [] e = ([], e)"
| "advance_times J (now # stamps) e =
     (let (thrown, evs, e1) = next J now e;
          (rest, e2) = advance_times J stamps e1
      in (evs # rest, e2))"

fun is_Command :: "'n GalEvent \<Rightarrow> bool" where
  "is_Command (Command cmd i n) = True"
| "is_Command ev = False"

section \<open>The script loader (core/LoadDAGData.ts)\<close>


record ValidationResult =
  valid :: bool
  errors :: "string list"













definition cycle_problem :: string where
  "cycle_problem =
     ''The node graph contains a cycle '' @ [CHR 0xE2, CHR 0x80, CHR 0x94]
       @ '' it is not a valid DAG''"





text \<open>Check 7: \<open>try { new DAG(...).topologicalSort() } catch { ... }\<close>.\<close>

definition check_dag :: "'n GameScript \<Rightarrow> string list" where
  "check_dag script =
     (case new_dag (script_nodes script) (script_edges script) of
        Inl err \<Rightarrow> [cycle_problem]
      | Inr d \<Rightarrow> (case topologicalSort d of Inl err \<Rightarrow> [cycle_problem] | Inr order \<Rightarrow> []))"








definition buildDAG :: "'n GameScript \<Rightarrow> NodeId dag_error + (NodeId, 'n SceneNodeData) dag" where
  "buildDAG script = new_dag (script_nodes script) (script_edges script)"

section \<open>Properties of the graph container\<close>

subsection \<open>\<open>hasPath\<close> decides reachability\<close>

lemma hasPath_scan_None: "hasPath_scan to ns (v, s) = None \<Longrightarrow> to \<in> set ns"
  by (induction ns arbitrary: v s) (auto split: if_splits)

lemma hasPath_scan_Some:
  "hasPath_scan to ns (v, s) = Some (v', s') \<Longrightarrow>
   to \<notin> set ns \<and> set v' = set v \<union> set ns \<and> set s' = set s \<union> (set ns - set v)"
proof (induction ns arbitrary: v s)
  case Nil
  then show ?case by simp
next
  case (Cons n ns)
  show ?case
  proof (cases "n \<in> set v")
    case True
    with Cons.prems have "hasPath_scan to ns (v, s) = Some (v', s')" and "n \<noteq> to"
      by (auto split: if_splits)
    from Cons.IH [OF this(1)] this(2) True show ?thesis by auto
  next
    case False
    with Cons.prems have "hasPath_scan to ns (v @ [n], n # s) = Some (v', s')" and "n \<noteq> to"
      by (auto split: if_splits)
    from Cons.IH [OF this(1)] this(2) False show ?thesis by auto
  qed
qed

lemma edges_of_I: "map_of table f = Some s \<Longrightarrow> t \<in> set s \<Longrightarrow> (f, t) \<in> edges_of table"
  by (auto simp: edges_of_def)

lemma hasPath_loop_sound:
  "hasPath_loop table to v s \<Longrightarrow> \<exists>x \<in> set s. (x, to) \<in> (edges_of table)\<^sup>+"
proof (induction table to v s rule: hasPath_loop.induct)
  case (1 table to visited)
  then show ?case by simp
next
  case (2 table to visited current stack)
  show ?case
  proof (cases "map_of table current")
    case None
    with 2 show ?thesis by auto
  next
    case (Some nextSet)
    show ?thesis
    proof (cases "hasPath_scan to nextSet (visited, stack)")
      case None
      from hasPath_scan_None [OF this] Some have "(current, to) \<in> edges_of table"
        by (rule_tac edges_of_I)
      then show ?thesis by auto
    next
      case scan: (Some r)
      obtain v' s' where r: "r = (v', s')" by (cases r)
      from "2.prems" Some scan r have "hasPath_loop table to v' s'" by simp
      from "2.IH"(2) [OF Some scan r [symmetric] this]
      obtain x where x: "x \<in> set s'" "(x, to) \<in> (edges_of table)\<^sup>+" by auto
      from hasPath_scan_Some [OF scan [unfolded r]] x(1)
      have "x \<in> set stack \<or> x \<in> set nextSet" by auto
      then show ?thesis
      proof
        assume "x \<in> set stack" with x(2) show ?thesis by auto
      next
        assume "x \<in> set nextSet"
        with Some have "(current, x) \<in> edges_of table" by (auto intro: edges_of_I)
        with x(2) have "(current, to) \<in> (edges_of table)\<^sup>+" by auto
        then show ?thesis by auto
      qed
    qed
  qed
qed

lemma closed_not_reachable:
  assumes "(x, y) \<in> E\<^sup>*" and "x \<in> V" and "\<forall>a\<in>V. \<forall>b. (a, b) \<in> E \<longrightarrow> b \<in> V"
  shows "y \<in> V"
  using assms by (induction rule: rtrancl_induct) auto

lemma hasPath_loop_complete:
  "\<not> hasPath_loop table to v s \<Longrightarrow> to \<notin> set v \<Longrightarrow> set s \<subseteq> set v \<Longrightarrow>
   (\<forall>a \<in> set v - set s. \<forall>b. (a, b) \<in> edges_of table \<longrightarrow> b \<in> set v) \<Longrightarrow>
   x \<in> set v \<Longrightarrow> (x, to) \<notin> (edges_of table)\<^sup>*"
proof (induction table to v s rule: hasPath_loop.induct)
  case (1 table to visited)
  show ?case
  proof
    assume "(x, to) \<in> (edges_of table)\<^sup>*"
    from closed_not_reachable [OF this, of "set visited"] 1 show False by auto
  qed
next
  case (2 table to visited current stack)
  show ?case
  proof (cases "map_of table current")
    case None
    then have nosucc: "\<And>b. (current, b) \<notin> edges_of table" by (auto simp: edges_of_def)
    from "2.prems"(1) None have a: "\<not> hasPath_loop table to visited stack" by simp
    have b: "\<forall>a \<in> set visited - set stack. \<forall>b. (a, b) \<in> edges_of table \<longrightarrow> b \<in> set visited"
    proof (intro ballI allI impI)
      fix a b assume a: "a \<in> set visited - set stack" and e: "(a, b) \<in> edges_of table"
      from e nosucc have "a \<noteq> current" by blast
      with a have "a \<in> set visited - set (current # stack)" by simp
      with "2.prems"(4) e show "b \<in> set visited" by blast
    qed
    have c: "set stack \<subseteq> set visited" using "2.prems"(3) by simp
    from "2.IH"(1) [OF None a "2.prems"(2) c b "2.prems"(5)] show ?thesis .
  next
    case (Some nextSet)
    show ?thesis
    proof (cases "hasPath_scan to nextSet (visited, stack)")
      case None
      with "2.prems"(1) Some show ?thesis by simp
    next
      case scan: (Some r)
      obtain v' s' where r: "r = (v', s')" by (cases r)
      note sc = hasPath_scan_Some [OF scan [unfolded r]]
      from "2.prems"(1) Some scan r have a: "\<not> hasPath_loop table to v' s'" by simp
      have b: "to \<notin> set v'" using sc "2.prems"(2) by auto
      have c: "set s' \<subseteq> set v'" using sc "2.prems"(3) by auto
      have succ: "\<And>b. (current, b) \<in> edges_of table \<Longrightarrow> b \<in> set nextSet"
        using Some by (auto simp: edges_of_def)
      have d: "\<forall>a \<in> set v' - set s'. \<forall>b. (a, b) \<in> edges_of table \<longrightarrow> b \<in> set v'"
      proof (intro ballI allI impI)
        fix a b assume a: "a \<in> set v' - set s'" and e: "(a, b) \<in> edges_of table"
        show "b \<in> set v'"
        proof (cases "a = current")
          case True
          with succ e sc show ?thesis by auto
        next
          case False
          with a sc have "a \<in> set visited - set (current # stack)" by auto
          with "2.prems"(4) e have "b \<in> set visited" by blast
          with sc show ?thesis by auto
        qed
      qed
      have e: "x \<in> set v'" using sc "2.prems"(5) by auto
      from "2.IH"(2) [OF Some scan r [symmetric] a b c d e] show ?thesis .
    qed
  qed
qed

lemma hasPath_True_iff:
  assumes "hasNode d f" "hasNode d t"
  shows "hasPath d f t = Inr ((f, t) \<in> (edge_rel d)\<^sup>*)"
proof (cases "f = t")
  case True
  with assms show ?thesis by (simp add: hasPath_def)
next
  case False
  have "hasPath_loop (outgoing d) t [f] [f] = ((f, t) \<in> (edge_rel d)\<^sup>*)"
  proof
    assume "hasPath_loop (outgoing d) t [f] [f]"
    from hasPath_loop_sound [OF this] show "(f, t) \<in> (edge_rel d)\<^sup>*"
      by (auto simp: edge_rel_def)
  next
    assume r: "(f, t) \<in> (edge_rel d)\<^sup>*"
    show "hasPath_loop (outgoing d) t [f] [f]"
    proof (rule ccontr)
      assume "\<not> hasPath_loop (outgoing d) t [f] [f]"
      from hasPath_loop_complete [OF this, of f] False r show False
        by (auto simp: edge_rel_def)
    qed
  qed
  with assms False show ?thesis by (simp add: hasPath_def)
qed


subsection \<open>The representation invariant\<close>

definition sets_ok :: "('k \<times> 'k list) list \<Rightarrow> bool" where
  "sets_ok table = (\<forall>k s. map_of table k = Some s \<longrightarrow> distinct s)"

definition dag_inv :: "('k, 'v) dag \<Rightarrow> bool" where
  "dag_inv d =
     (distinct (map fst (nodeMap d)) \<and>
      map fst (outgoing d) = map fst (nodeMap d) \<and>
      map fst (incoming d) = map fst (nodeMap d) \<and>
      sets_ok (outgoing d) \<and> sets_ok (incoming d) \<and>
      edges_of (incoming d) = (edges_of (outgoing d))\<inverse> \<and>
      acyclic (edges_of (outgoing d)))"

lemma in_edges_of_update:
  "(a, b) \<in> edges_of (AList.update k s table) \<longleftrightarrow>
     (if a = k then b \<in> set s else (a, b) \<in> edges_of table)"
  by (simp add: edges_of_def update_conv')

lemma in_edges_of_delete:
  "(a, b) \<in> edges_of (AList.delete k table) \<longleftrightarrow> a \<noteq> k \<and> (a, b) \<in> edges_of table"
  by (simp add: edges_of_def delete_conv')

lemma map_of_Some_keys: "map_of al k = Some v \<Longrightarrow> k \<in> fst ` set al"
  by (metis domI dom_map_of_conv_image_fst)

lemma keys_detach: "map fst (detach x k table) = map fst table"
  by (cases "map_of table k") (simp_all add: detach_def update_keys map_of_Some_keys)

lemma in_edges_of_conv:
  "(a, b) \<in> edges_of table \<longleftrightarrow> (\<exists>s. map_of table a = Some s \<and> b \<in> set s)"
  by (simp add: edges_of_def)

lemma in_edges_of_detach:
  "(a, b) \<in> edges_of (detach x k table) \<longleftrightarrow> (a, b) \<in> edges_of table \<and> \<not> (a = k \<and> b = x)"
proof (cases "map_of table k")
  case None
  then have "detach x k table = table" by (simp add: detach_def)
  moreover from None have "(a, b) \<in> edges_of table \<Longrightarrow> a \<noteq> k"
    by (auto simp: in_edges_of_conv)
  ultimately show ?thesis by auto
next
  case (Some s)
  then have "detach x k table = AList.update k (set_delete x s) table" by (simp add: detach_def)
  moreover from Some have "(k, b) \<in> edges_of table \<longleftrightarrow> b \<in> set s"
    by (simp add: in_edges_of_conv)
  ultimately show ?thesis by (simp add: in_edges_of_update set_delete_def)
qed

lemma keys_fold_detach: "map fst (fold (detach x) ps table) = map fst table"
  by (induction ps arbitrary: table) (simp_all add: keys_detach)

lemma in_edges_of_fold_detach:
  "(a, b) \<in> edges_of (fold (detach x) ps table) \<longleftrightarrow>
     (a, b) \<in> edges_of table \<and> \<not> (a \<in> set ps \<and> b = x)"
  by (induction ps arbitrary: table) (auto simp: in_edges_of_detach)

lemma sets_okD: "sets_ok table \<Longrightarrow> map_of table k = Some s \<Longrightarrow> distinct s"
  unfolding sets_ok_def by blast

lemma sets_ok_update:
  assumes "sets_ok table" "distinct s"
  shows "sets_ok (AList.update k s table)"
  unfolding sets_ok_def
proof (intro allI impI)
  fix k' s'
  assume "map_of (AList.update k s table) k' = Some s'"
  then have "(if k' = k then Some s else map_of table k') = Some s'"
    by (simp add: update_conv')
  then show "distinct s'"
    using assms(2) sets_okD [OF assms(1), of k' s'] by (cases "k' = k") simp_all
qed

lemma sets_ok_delete:
  assumes "sets_ok table"
  shows "sets_ok (AList.delete k table)"
  unfolding sets_ok_def
proof (intro allI impI)
  fix k' s'
  assume "map_of (AList.delete k table) k' = Some s'"
  then have "map_of table k' = Some s'"
    by (cases "k' = k") (simp_all add: delete_conv')
  then show "distinct s'" by (rule sets_okD [OF assms])
qed

lemma sets_ok_detach: "sets_ok table \<Longrightarrow> sets_ok (detach x k table)"
proof (cases "map_of table k")
  case None
  assume "sets_ok table"
  with None show ?thesis by (simp add: detach_def)
next
  case (Some s)
  assume ok: "sets_ok table"
  from sets_okD [OF ok Some] have "distinct (set_delete x s)" by (simp add: set_delete_def distinct_removeAll)
  with ok Some show ?thesis by (simp add: detach_def sets_ok_update)
qed

lemma sets_ok_fold_detach: "sets_ok table \<Longrightarrow> sets_ok (fold (detach x) ps table)"
  by (induction ps arbitrary: table) (simp_all add: sets_ok_detach)

lemma hasNode_keys: "hasNode d k \<longleftrightarrow> k \<in> fst ` set (nodeMap d)"
  by (simp add: hasNode_def map_of_eq_None_iff)

lemma edges_of_keys: "(a, b) \<in> edges_of table \<Longrightarrow> a \<in> fst ` set table"
  by (auto simp: in_edges_of_conv dest: map_of_Some_keys)

lemma dag_inv_keys:
  assumes "dag_inv d"
  shows "fst ` set (outgoing d) = fst ` set (nodeMap d)"
    and "fst ` set (incoming d) = fst ` set (nodeMap d)"
proof -
  from assms have "set (map fst (outgoing d)) = set (map fst (nodeMap d))"
    and "set (map fst (incoming d)) = set (map fst (nodeMap d))"
    by (simp_all add: dag_inv_def)
  then show "fst ` set (outgoing d) = fst ` set (nodeMap d)"
    and "fst ` set (incoming d) = fst ` set (nodeMap d)"
    by simp_all
qed

lemma dag_inv_converse:
  "dag_inv d \<Longrightarrow> (a, b) \<in> edges_of (incoming d) \<longleftrightarrow> (b, a) \<in> edges_of (outgoing d)"
  by (simp add: dag_inv_def)

lemma dag_inv_endpoints:
  assumes "dag_inv d" "(a, b) \<in> edge_rel d"
  shows "hasNode d a" "hasNode d b"
proof -
  from assms(2) have "a \<in> fst ` set (outgoing d)"
    unfolding edge_rel_def by (rule edges_of_keys)
  then show "hasNode d a" by (simp add: hasNode_keys dag_inv_keys [OF assms(1)])
  from assms have "(b, a) \<in> edges_of (incoming d)"
    by (simp add: dag_inv_converse edge_rel_def)
  then have "b \<in> fst ` set (incoming d)" by (rule edges_of_keys)
  then show "hasNode d b" by (simp add: hasNode_keys dag_inv_keys [OF assms(1)])
qed

lemma dag_invI:
  assumes "distinct (map fst (nodeMap d))"
    and "map fst (outgoing d) = map fst (nodeMap d)"
    and "map fst (incoming d) = map fst (nodeMap d)"
    and "sets_ok (outgoing d)" and "sets_ok (incoming d)"
    and "\<And>a b. (a, b) \<in> edges_of (incoming d) \<longleftrightarrow> (b, a) \<in> edges_of (outgoing d)"
    and "acyclic (edges_of (outgoing d))"
  shows "dag_inv d"
proof -
  from assms(6) have "edges_of (incoming d) = (edges_of (outgoing d))\<inverse>" by auto
  with assms show ?thesis by (simp add: dag_inv_def)
qed

lemma dag_invD:
  assumes "dag_inv d"
  shows "distinct (map fst (nodeMap d))"
    and "map fst (outgoing d) = map fst (nodeMap d)"
    and "map fst (incoming d) = map fst (nodeMap d)"
    and "sets_ok (outgoing d)" and "sets_ok (incoming d)"
    and "acyclic (edges_of (outgoing d))"
  using assms by (simp_all add: dag_inv_def)

lemma keys_update_fresh: "k \<notin> fst ` set al \<Longrightarrow> map fst (AList.update k v al) = map fst al @ [k]"
  by (simp add: update_keys)

lemma keys_update_present: "k \<in> fst ` set al \<Longrightarrow> map fst (AList.update k v al) = map fst al"
  by (simp add: update_keys)

lemma dag_inv_empty: "dag_inv empty_dag"
  by (simp add: dag_inv_def empty_dag_def sets_ok_def edges_of_def acyclic_def)

lemma dag_inv_clear: "dag_inv (clear d)"
  by (simp add: dag_inv_def clear_def sets_ok_def edges_of_def acyclic_def)

lemma edges_of_update_fresh:
  assumes "k \<notin> fst ` set table"
  shows "edges_of (AList.update k [] table) = edges_of table"
proof -
  have "(a, b) \<in> edges_of (AList.update k [] table) \<longleftrightarrow> (a, b) \<in> edges_of table" for a b
    using assms edges_of_keys [of a b table] by (cases "a = k") (auto simp: in_edges_of_update)
  then show ?thesis by auto
qed

text \<open>Inserting a node that is not there yet.\<close>

lemma dag_inv_fresh_node:
  assumes inv: "dag_inv d" and fresh: "\<not> hasNode d k"
  shows "dag_inv (d\<lparr>nodeMap := AList.update k v (nodeMap d),
                     outgoing := AList.update k [] (outgoing d),
                     incoming := AList.update k [] (incoming d)\<rparr>)"
proof -
  note D = dag_invD [OF inv] and K = dag_inv_keys [OF inv]
  from fresh have k: "k \<notin> fst ` set (nodeMap d)" by (simp add: hasNode_keys)
  with K have ko: "k \<notin> fst ` set (outgoing d)" and ki: "k \<notin> fst ` set (incoming d)"
    by simp_all
  show ?thesis
  proof (rule dag_invI)
    show "distinct (map fst (nodeMap (d\<lparr>nodeMap := AList.update k v (nodeMap d),
                     outgoing := AList.update k [] (outgoing d),
                     incoming := AList.update k [] (incoming d)\<rparr>)))"
      using D(1) by (simp add: distinct_update)
  qed (simp_all add: keys_update_fresh k ko ki D sets_ok_update edges_of_update_fresh
                     dag_inv_converse [OF inv])
qed


lemma dag_inv_replace_value:
  assumes inv: "dag_inv d" and present: "hasNode d k"
  shows "dag_inv (d\<lparr>nodeMap := AList.update k v (nodeMap d)\<rparr>)"
proof -
  note D = dag_invD [OF inv]
  from present have k: "k \<in> fst ` set (nodeMap d)" by (simp add: hasNode_keys)
  show ?thesis
    by (rule dag_invI)
       (simp_all add: keys_update_present k D dag_inv_converse [OF inv])
qed

lemma dag_inv_addNode: "dag_inv d \<Longrightarrow> dag_inv (snd (addNode k v d))"
  by (simp add: addNode_def dag_inv_fresh_node)

lemma dag_inv_setNodeValue: "dag_inv d \<Longrightarrow> dag_inv (snd (setNodeValue k v d))"
  by (simp add: setNodeValue_def dag_inv_replace_value)

lemma upsertNode_cases:
  "upsertNode k v d =
     (if hasNode d k then d\<lparr>nodeMap := AList.update k v (nodeMap d)\<rparr>
      else d\<lparr>nodeMap := AList.update k v (nodeMap d),
              outgoing := AList.update k [] (outgoing d),
              incoming := AList.update k [] (incoming d)\<rparr>)"
  by (simp add: upsertNode_def Let_def)

lemma dag_inv_upsertNode: "dag_inv d \<Longrightarrow> dag_inv (upsertNode k v d)"
  by (simp add: upsertNode_cases dag_inv_fresh_node dag_inv_replace_value)

lemma dag_inv_adjacency:
  assumes "dag_inv d" "hasNode d k"
  shows "\<exists>s. map_of (outgoing d) k = Some s" and "\<exists>s. map_of (incoming d) k = Some s"
proof -
  from assms have "k \<in> fst ` set (outgoing d)" and "k \<in> fst ` set (incoming d)"
    by (simp_all add: hasNode_keys dag_inv_keys)
  then have "map_of (outgoing d) k \<noteq> None" and "map_of (incoming d) k \<noteq> None"
    by (simp_all add: map_of_eq_None_iff)
  then show "\<exists>s. map_of (outgoing d) k = Some s" and "\<exists>s. map_of (incoming d) k = Some s"
    by auto
qed

subsubsection \<open>\<open>removeEdge\<close>\<close>

lemma removeEdge_absent: "(f, t) \<notin> edge_rel d \<Longrightarrow> removeEdge f t d = (False, d)"
  by (auto simp: removeEdge_def edge_rel_def in_edges_of_conv split: option.splits)

lemma removeEdge_present:
  assumes "map_of (outgoing d) f = Some targets" "t \<in> set targets"
  shows "removeEdge f t d =
           (True, d\<lparr>outgoing := AList.update f (set_delete t targets) (outgoing d),
                     incoming := detach f t (incoming d)\<rparr>)"
  using assms by (simp add: removeEdge_def)

lemma dag_inv_removeEdge:
  assumes inv: "dag_inv d"
  shows "dag_inv (snd (removeEdge f t d))
       \<and> edge_rel (snd (removeEdge f t d)) = edge_rel d - {(f, t)}
       \<and> nodeMap (snd (removeEdge f t d)) = nodeMap d"
proof (cases "(f, t) \<in> edge_rel d")
  case False
  with inv show ?thesis by (simp add: removeEdge_absent)
next
  case True
  then obtain targets where tg: "map_of (outgoing d) f = Some targets" and t: "t \<in> set targets"
    by (auto simp: edge_rel_def in_edges_of_conv)
  note D = dag_invD [OF inv]
  let ?out = "AList.update f (set_delete t targets) (outgoing d)"
  let ?inc = "detach f t (incoming d)"
  let ?d = "d\<lparr>outgoing := ?out, incoming := ?inc\<rparr>"
  have ft: "(f, b) \<in> edges_of (outgoing d) \<longleftrightarrow> b \<in> set targets" for b
    using tg by (simp add: in_edges_of_conv)
  have out: "(a, b) \<in> edges_of ?out \<longleftrightarrow> (a, b) \<in> edges_of (outgoing d) \<and> (a, b) \<noteq> (f, t)" for a b
    by (cases "a = f") (auto simp: in_edges_of_update set_delete_def ft)
  have inc: "(a, b) \<in> edges_of ?inc \<longleftrightarrow> (a, b) \<in> edges_of (incoming d) \<and> (a, b) \<noteq> (t, f)" for a b
    by (auto simp: in_edges_of_detach)
  have "dag_inv ?d"
  proof (rule dag_invI)
    show "map fst (outgoing ?d) = map fst (nodeMap ?d)"
      using D(2) map_of_Some_keys [OF tg] by (simp add: keys_update_present)
    show "sets_ok (outgoing ?d)"
      using sets_okD [OF D(4) tg] by (simp add: sets_ok_update D(4) set_delete_def distinct_removeAll)
    show "acyclic (edges_of (outgoing ?d))"
    proof (rule acyclic_subset [OF D(6)])
      show "edges_of (outgoing ?d) \<subseteq> edges_of (outgoing d)" using out by auto
    qed
    show "(a, b) \<in> edges_of (incoming ?d) \<longleftrightarrow> (b, a) \<in> edges_of (outgoing ?d)" for a b
      using out [of b a] inc [of a b] dag_inv_converse [OF inv, of a b] by auto
  qed (simp_all add: D keys_detach sets_ok_detach)
  moreover have "edge_rel ?d = edge_rel d - {(f, t)}"
    using out by (auto simp: edge_rel_def)
  ultimately show ?thesis by (simp add: removeEdge_present [OF tg t])
qed

subsubsection \<open>\<open>addEdge\<close>\<close>

lemma addEdge_result:
  assumes inv: "dag_inv d"
  shows "addEdge f t d =
     (if \<not> hasNode d f then (Some (NodeDoesNotExist f), d)
      else if \<not> hasNode d t then (Some (NodeDoesNotExist t), d)
      else if f = t then (Some (SelfLoop f t), d)
      else if (f, t) \<in> edge_rel d then (None, d)
      else if (t, f) \<in> (edge_rel d)\<^sup>* then (Some (CreatesCycle f t), d)
      else (None, d\<lparr>outgoing := AList.update f (targets_or_empty (outgoing d) f @ [t]) (outgoing d),
                     incoming := AList.update t (targets_or_empty (incoming d) t @ [f]) (incoming d)\<rparr>))"
proof (cases "hasNode d f \<and> hasNode d t \<and> f \<noteq> t")
  case False
  then show ?thesis by (auto simp: addEdge_def)
next
  case True
  then have hf: "hasNode d f" and ht: "hasNode d t" and ne: "f \<noteq> t" by simp_all
  from dag_inv_adjacency(1) [OF inv hf] obtain targets
    where tg: "map_of (outgoing d) f = Some targets" by auto
  from dag_inv_adjacency(2) [OF inv ht] obtain sources
    where src: "map_of (incoming d) t = Some sources" by auto
  have e: "(f, t) \<in> edge_rel d \<longleftrightarrow> t \<in> set targets"
    using tg by (simp add: edge_rel_def in_edges_of_conv)
  have e': "(f, t) \<in> edge_rel d \<longleftrightarrow> f \<in> set sources"
    using src dag_inv_converse [OF inv, of t f] by (simp add: edge_rel_def in_edges_of_conv)
  show ?thesis
  proof (cases "(f, t) \<in> edge_rel d")
    case True
    with hf ht ne tg e show ?thesis by (simp add: addEdge_def)
  next
    case False
    with e e' have nt: "t \<notin> set targets" and nf: "f \<notin> set sources" by simp_all
    show ?thesis
      using hf ht ne tg src False nt nf hasPath_True_iff [OF ht hf]
      by (simp add: addEdge_def set_add_def targets_or_empty_def)
  qed
qed

lemma dag_inv_new_edge:
  assumes inv: "dag_inv d" and hf: "hasNode d f" and ht: "hasNode d t"
    and ne: "f \<noteq> t" and new: "(f, t) \<notin> edge_rel d" and nopath: "(t, f) \<notin> (edge_rel d)\<^sup>*"
  defines "d' \<equiv> d\<lparr>outgoing := AList.update f (targets_or_empty (outgoing d) f @ [t]) (outgoing d),
                     incoming := AList.update t (targets_or_empty (incoming d) t @ [f]) (incoming d)\<rparr>"
  shows "dag_inv d'" and "edge_rel d' = insert (f, t) (edge_rel d)"
proof -
  note D = dag_invD [OF inv]
  from dag_inv_adjacency(1) [OF inv hf] obtain targets
    where tg: "map_of (outgoing d) f = Some targets" by auto
  from dag_inv_adjacency(2) [OF inv ht] obtain sources
    where src: "map_of (incoming d) t = Some sources" by auto
  have nt: "t \<notin> set targets"
    using tg new by (simp add: edge_rel_def in_edges_of_conv)
  have nf: "f \<notin> set sources"
    using src new dag_inv_converse [OF inv, of t f] by (simp add: edge_rel_def in_edges_of_conv)
  have d': "d' = d\<lparr>outgoing := AList.update f (targets @ [t]) (outgoing d),
                    incoming := AList.update t (sources @ [f]) (incoming d)\<rparr>"
    using tg src by (simp add: d'_def targets_or_empty_def)
  have ft: "(f, b) \<in> edges_of (outgoing d) \<longleftrightarrow> b \<in> set targets" for b
    using tg by (simp add: in_edges_of_conv)
  have tf: "(t, b) \<in> edges_of (incoming d) \<longleftrightarrow> b \<in> set sources" for b
    using src by (simp add: in_edges_of_conv)
  have out: "(a, b) \<in> edges_of (outgoing d') \<longleftrightarrow> (a, b) \<in> edges_of (outgoing d) \<or> (a, b) = (f, t)" for a b
    by (cases "a = f") (auto simp: d' in_edges_of_update ft)
  have inc: "(a, b) \<in> edges_of (incoming d') \<longleftrightarrow> (a, b) \<in> edges_of (incoming d) \<or> (a, b) = (t, f)" for a b
    by (cases "a = t") (auto simp: d' in_edges_of_update tf)
  show rel: "edge_rel d' = insert (f, t) (edge_rel d)"
    using out by (auto simp: edge_rel_def)
  show "dag_inv d'"
  proof (rule dag_invI)
    show "distinct (map fst (nodeMap d'))" using D(1) by (simp add: d')
    show "map fst (outgoing d') = map fst (nodeMap d')"
      using D(2) map_of_Some_keys [OF tg] by (simp add: d' keys_update_present)
    show "map fst (incoming d') = map fst (nodeMap d')"
      using D(3) map_of_Some_keys [OF src] by (simp add: d' keys_update_present)
    show "sets_ok (outgoing d')"
      using sets_okD [OF D(4) tg] nt by (simp add: d' sets_ok_update D(4))
    show "sets_ok (incoming d')"
      using sets_okD [OF D(5) src] nf by (simp add: d' sets_ok_update D(5))
    show "(a, b) \<in> edges_of (incoming d') \<longleftrightarrow> (b, a) \<in> edges_of (outgoing d')" for a b
      using out [of b a] inc [of a b] dag_inv_converse [OF inv, of a b] by auto
    have "acyclic (insert (f, t) (edge_rel d))"
      using D(6) nopath by (simp add: acyclic_insert edge_rel_def)
    with rel show "acyclic (edges_of (outgoing d'))" by (simp add: edge_rel_def)
  qed
qed

lemma dag_inv_addEdge: "dag_inv d \<Longrightarrow> dag_inv (snd (addEdge f t d))"
  by (simp add: addEdge_result dag_inv_new_edge(1))

subsubsection \<open>\<open>removeNode\<close>\<close>

lemma removeNode_absent: "\<not> hasNode d k \<Longrightarrow> removeNode k d = (False, d)"
  by (simp add: removeNode_def)

lemma map_of_fold_detach_keys:
  "map_of (fold (detach x) ps table) k = None \<longleftrightarrow> map_of table k = None"
  by (simp add: map_of_eq_None_iff keys_fold_detach [of x ps table, THEN arg_cong, of set, simplified])

lemma dag_inv_removeNode:
  assumes inv: "dag_inv d"
  shows "dag_inv (snd (removeNode k d))
       \<and> edge_rel (snd (removeNode k d)) = {(a, b) \<in> edge_rel d. a \<noteq> k \<and> b \<noteq> k}
       \<and> nodeMap (snd (removeNode k d)) = AList.delete k (nodeMap d)"
proof (cases "hasNode d k")
  case False
  then have "k \<notin> fst ` set (nodeMap d)" by (simp add: hasNode_keys)
  moreover have "a \<noteq> k \<and> b \<noteq> k" if "(a, b) \<in> edge_rel d" for a b
    using dag_inv_endpoints [OF inv that] False by auto
  ultimately show ?thesis using inv False by (auto simp: removeNode_absent)
next
  case True
  note D = dag_invD [OF inv]
  from dag_inv_adjacency(2) [OF inv True] obtain parents
    where par: "map_of (incoming d) k = Some parents" by auto
  let ?out1 = "fold (detach k) parents (outgoing d)"
  from dag_inv_adjacency(1) [OF inv True] have "map_of (outgoing d) k \<noteq> None" by auto
  then have "map_of ?out1 k \<noteq> None" by (simp add: map_of_fold_detach_keys)
  then obtain children where ch: "map_of ?out1 k = Some children" by auto
  let ?in1 = "fold (detach k) children (incoming d)"
  let ?d = "\<lparr>nodeMap = AList.delete k (nodeMap d),
             outgoing = AList.delete k ?out1,
             incoming = AList.delete k ?in1\<rparr>"
  have res: "removeNode k d = (True, ?d)"
    using True par ch by (simp add: removeNode_def)
  have parents: "x \<in> set parents \<longleftrightarrow> (x, k) \<in> edges_of (outgoing d)" for x
    using par dag_inv_converse [OF inv, of k x] by (simp add: in_edges_of_conv)
  have children: "x \<in> set children \<longleftrightarrow> (k, x) \<in> edges_of ?out1" for x
    using ch by (simp add: in_edges_of_conv)
  have out: "(a, b) \<in> edges_of (outgoing ?d) \<longleftrightarrow> (a, b) \<in> edges_of (outgoing d) \<and> a \<noteq> k \<and> b \<noteq> k"
    for a b
    by (auto simp: in_edges_of_delete in_edges_of_fold_detach parents)
  have inc: "(a, b) \<in> edges_of (incoming ?d) \<longleftrightarrow> (b, a) \<in> edges_of (outgoing d) \<and> a \<noteq> k \<and> b \<noteq> k"
    for a b
    by (auto simp: in_edges_of_delete in_edges_of_fold_detach children parents
                   dag_inv_converse [OF inv])
  have "dag_inv ?d"
  proof (rule dag_invI)
    show "distinct (map fst (nodeMap ?d))" using D(1) by (simp add: distinct_delete)
    show "map fst (outgoing ?d) = map fst (nodeMap ?d)"
      using D(2) by (simp add: delete_keys keys_fold_detach)
    show "map fst (incoming ?d) = map fst (nodeMap ?d)"
      using D(3) by (simp add: delete_keys keys_fold_detach)
    show "sets_ok (outgoing ?d)" using D(4) by (simp add: sets_ok_delete sets_ok_fold_detach)
    show "sets_ok (incoming ?d)" using D(5) by (simp add: sets_ok_delete sets_ok_fold_detach)
    show "(a, b) \<in> edges_of (incoming ?d) \<longleftrightarrow> (b, a) \<in> edges_of (outgoing ?d)" for a b
      using out [of b a] inc [of a b] by auto
    show "acyclic (edges_of (outgoing ?d))"
    proof (rule acyclic_subset [OF D(6)])
      show "edges_of (outgoing ?d) \<subseteq> edges_of (outgoing d)" using out by auto
    qed
  qed
  moreover have "edge_rel ?d = {(a, b) \<in> edge_rel d. a \<noteq> k \<and> b \<noteq> k}"
    using out by (auto simp: edge_rel_def)
  ultimately show ?thesis by (simp add: res)
qed

subsubsection \<open>Every graph built through the public methods satisfies the invariant\<close>

lemma dag_inv_after_call: "dag_inv d \<Longrightarrow> dag_inv (after_call c d)"
  by (cases c)
     (simp_all add: dag_inv_addNode dag_inv_upsertNode dag_inv_setNodeValue dag_inv_removeNode
                    dag_inv_clear dag_inv_addEdge dag_inv_removeEdge)

lemma dag_inv_fold_calls: "dag_inv d \<Longrightarrow> dag_inv (fold after_call calls d)"
  by (induction calls arbitrary: d) (simp_all add: dag_inv_after_call)

lemma dag_inv_built: "dag_inv (built calls)"
  by (simp add: built_def dag_inv_fold_calls dag_inv_empty)

subsection \<open>\<open>topologicalSort\<close> orders every node of an acyclic graph\<close>

lemma degree_of_update:
  "degree_of (AList.update k n indegrees) v = (if v = k then n else degree_of indegrees v)"
  by (simp add: degree_of_def update_conv')

lemma relax_effect:
  assumes "relax n (indegrees, queue) = (indegrees', queue')"
  shows "\<forall>v. degree_of indegrees' v = degree_of indegrees v - (if v = n then 1 else 0)"
    and "queue' = queue @ (if degree_of indegrees n = 1 then [n] else [])"
    and "n \<in> fst ` set indegrees \<Longrightarrow> map fst indegrees' = map fst indegrees"
proof -
  from assms have i: "indegrees' = AList.update n (degree_of indegrees n - 1) indegrees"
    and q: "queue' = (if degree_of indegrees n - 1 = 0 then queue @ [n] else queue)"
    by (simp_all add: relax_def Let_def)
  from i show "\<forall>v. degree_of indegrees' v = degree_of indegrees v - (if v = n then 1 else 0)"
    by (simp add: degree_of_update)
  from q show "queue' = queue @ (if degree_of indegrees n = 1 then [n] else [])"
    by simp
  show "map fst indegrees' = map fst indegrees" if "n \<in> fst ` set indegrees"
    using that i by (simp add: keys_update_present)
qed

lemma fold_relax_effect:
  "fold relax ns (indegrees, queue) = (indegrees', queue') \<Longrightarrow> distinct ns \<Longrightarrow>
   set ns \<subseteq> fst ` set indegrees \<Longrightarrow>
   (\<forall>v. degree_of indegrees' v = degree_of indegrees v - (if v \<in> set ns then 1 else 0)) \<and>
   queue' = queue @ filter (\<lambda>v. degree_of indegrees v = 1) ns \<and>
   map fst indegrees' = map fst indegrees"
proof (induction ns arbitrary: indegrees queue)
  case Nil
  then show ?case by simp
next
  case (Cons n ns)
  obtain i1 q1 where step: "relax n (indegrees, queue) = (i1, q1)"
    by (cases "relax n (indegrees, queue)")
  note eff = relax_effect [OF step]
  from Cons.prems have n: "n \<in> fst ` set indegrees" and nn: "n \<notin> set ns" and dn: "distinct ns"
    by simp_all
  from eff(3) [OF n] have keys: "map fst i1 = map fst indegrees" .
  then have "set (map fst i1) = set (map fst indegrees)" by simp
  then have keys': "fst ` set i1 = fst ` set indegrees" by simp
  from Cons.prems step have rest: "fold relax ns (i1, q1) = (indegrees', queue')" by simp
  from Cons.prems keys' have sub: "set ns \<subseteq> fst ` set i1" by simp
  note ih = Cons.IH [OF rest dn sub]
  have same: "filter (\<lambda>v. degree_of i1 v = 1) ns = filter (\<lambda>v. degree_of indegrees v = 1) ns"
    using eff(1) nn by (intro filter_cong) auto
  have "\<forall>v. degree_of indegrees' v = degree_of indegrees v - (if v \<in> set (n # ns) then 1 else 0)"
    using ih eff(1) nn by auto
  moreover have "queue' = queue @ filter (\<lambda>v. degree_of indegrees v = 1) (n # ns)"
    using ih eff(2) same by simp
  moreover have "map fst indegrees' = map fst indegrees"
    using ih keys by simp
  ultimately show ?case by blast
qed

text \<open>
  The loop invariant: the in-degree table counts, for every node, its predecessors that
  have not been taken from the queue yet, and the queue holds exactly the nodes whose count
  has reached zero.
\<close>

definition waiting :: "('k \<times> 'k) set \<Rightarrow> 'k set \<Rightarrow> 'k \<Rightarrow> 'k set" where
  "waiting E P v = {u. (u, v) \<in> E \<and> u \<notin> P}"

definition kahn_inv ::
  "('k \<times> 'k list) list \<Rightarrow> 'k list \<Rightarrow> ('k \<times> int) list \<Rightarrow> 'k list \<Rightarrow> nat \<Rightarrow> 'k list \<Rightarrow> bool" where
  "kahn_inv table N indegrees queue index order =
     (map fst indegrees = N \<and> distinct queue \<and> set queue \<subseteq> set N \<and> index \<le> length queue \<and>
      order = take index queue \<and>
      (\<forall>v \<in> set N. degree_of indegrees v = int (card (waiting (edges_of table) (set (take index queue)) v))) \<and>
      (\<forall>v \<in> set N. v \<in> set queue \<longleftrightarrow> degree_of indegrees v = 0))"

definition graph_ok :: "('k \<times> 'k list) list \<Rightarrow> 'k list \<Rightarrow> bool" where
  "graph_ok table N =
     (distinct N \<and> sets_ok table \<and> acyclic (edges_of table) \<and>
      (\<forall>a b. (a, b) \<in> edges_of table \<longrightarrow> a \<in> set N \<and> b \<in> set N))"

lemma finite_edges_of: "finite (edges_of table)"
proof -
  have "edges_of table \<subseteq> fst ` set table \<times> targets_of table"
  proof
    fix e assume e: "e \<in> edges_of table"
    obtain a b where ab: "e = (a, b)" by (cases e)
    with e obtain s where s: "map_of table a = Some s" "b \<in> set s"
      by (auto simp: in_edges_of_conv)
    from map_of_Some_keys [OF s(1)] map_of_targets_of [OF s(1)] s(2) ab
    show "e \<in> fst ` set table \<times> targets_of table" by auto
  qed
  then show ?thesis by (rule finite_subset) (simp add: finite_targets_of)
qed

lemma finite_waiting: "finite (waiting (edges_of table) P v)"
proof -
  have "waiting (edges_of table) P v \<subseteq> fst ` edges_of table"
    by (auto simp: waiting_def intro: rev_image_eqI)
  then show ?thesis by (rule finite_subset) (simp add: finite_edges_of)
qed

lemma waiting_insert:
  assumes "c \<notin> P"
  shows "card (waiting (edges_of table) (insert c P) v)
       = card (waiting (edges_of table) P v) - (if (c, v) \<in> edges_of table then 1 else 0)"
proof (cases "(c, v) \<in> edges_of table")
  case True
  with assms have "waiting (edges_of table) P v = insert c (waiting (edges_of table) (insert c P) v)"
    and "c \<notin> waiting (edges_of table) (insert c P) v"
    by (auto simp: waiting_def)
  then show ?thesis using True finite_waiting [of table "insert c P" v] by simp
next
  case False
  then have "waiting (edges_of table) (insert c P) v = waiting (edges_of table) P v"
    by (auto simp: waiting_def)
  with False show ?thesis by simp
qed

lemma set_targets_or_empty: "x \<in> set (targets_or_empty table k) \<longleftrightarrow> (k, x) \<in> edges_of table"
  by (cases "map_of table k") (simp_all add: targets_or_empty_def in_edges_of_conv)

lemma distinct_targets_or_empty: "sets_ok table \<Longrightarrow> distinct (targets_or_empty table k)"
  by (cases "map_of table k") (auto simp: targets_or_empty_def dest: sets_okD)

declare kahn_loop.simps [simp del]

lemma kahn_inv_step:
  assumes ok: "graph_ok table N"
    and inv: "kahn_inv table N indegrees queue index order"
    and lt: "index < length queue"
    and r: "fold relax (targets_or_empty table (queue ! index)) (indegrees, queue) = (indegrees', queue')"
  shows "kahn_inv table N indegrees' queue' (Suc index) (order @ [queue ! index])"
proof -
  let ?c = "queue ! index" and ?E = "edges_of table" and ?P = "set (take index queue)"
  let ?ts = "targets_or_empty table ?c"
  from ok have dN: "distinct N" and sok: "sets_ok table"
    and ends: "\<And>a b. (a, b) \<in> ?E \<Longrightarrow> a \<in> set N \<and> b \<in> set N"
    by (auto simp: graph_ok_def)
  from inv have keys: "map fst indegrees = N" and dq: "distinct queue"
    and qN: "set queue \<subseteq> set N" and ord: "order = take index queue"
    and deg: "\<And>v. v \<in> set N \<Longrightarrow> degree_of indegrees v = int (card (waiting ?E ?P v))"
    and zero: "\<And>v. v \<in> set N \<Longrightarrow> v \<in> set queue \<longleftrightarrow> degree_of indegrees v = 0"
    by (auto simp: kahn_inv_def)
  have ts: "\<And>x. x \<in> set ?ts \<longleftrightarrow> (?c, x) \<in> ?E" by (rule set_targets_or_empty)
  have dts: "distinct ?ts" using sok by (rule distinct_targets_or_empty)
  have "set (map fst indegrees) = set N" using keys by simp
  then have keyset: "fst ` set indegrees = set N" by simp
  have tsN: "set ?ts \<subseteq> fst ` set indegrees" using ts ends keyset by auto
  note eff = fold_relax_effect [OF r dts tsN]
  from eff have deg': "\<And>v. degree_of indegrees' v = degree_of indegrees v - (if v \<in> set ?ts then 1 else 0)"
    and q': "queue' = queue @ filter (\<lambda>v. degree_of indegrees v = 1) ?ts"
    and keys': "map fst indegrees' = map fst indegrees"
    by simp_all
  have tk: "take (Suc index) queue' = take index queue @ [?c]"
    using lt by (simp add: q' take_Suc_conv_app_nth)
  have cP: "?c \<notin> ?P"
  proof
    assume "?c \<in> ?P"
    then obtain i where "i < index" "queue ! i = ?c"
      using lt by (auto simp: in_set_conv_nth)
    with dq lt show False by (auto simp: distinct_conv_nth)
  qed
  have P': "set (take (Suc index) queue') = insert ?c ?P" using tk by simp
  have pos: "1 \<le> degree_of indegrees v" if "v \<in> set ?ts" for v
  proof -
    from that have e: "(?c, v) \<in> ?E" by (simp add: ts)
    with cP have "?c \<in> waiting ?E ?P v" by (simp add: waiting_def)
    then have "card (waiting ?E ?P v) \<noteq> 0" using finite_waiting [of table ?P v] by auto
    with deg [of v] ends [OF e] show ?thesis by simp
  qed
  have new_deg: "degree_of indegrees' v = int (card (waiting ?E (insert ?c ?P) v))"
    if v: "v \<in> set N" for v
  proof (cases "v \<in> set ?ts")
    case True
    then have e: "(?c, v) \<in> ?E" by (simp add: ts)
    from pos [OF True] deg [OF v] have "1 \<le> card (waiting ?E ?P v)" by simp
    with True e show ?thesis
      by (simp add: deg' deg [OF v] waiting_insert [OF cP] of_nat_diff)
  next
    case False
    then have "(?c, v) \<notin> ?E" by (simp add: ts)
    with False show ?thesis by (simp add: deg' deg [OF v] waiting_insert [OF cP])
  qed
  have new_zero: "v \<in> set queue' \<longleftrightarrow> degree_of indegrees' v = 0" if v: "v \<in> set N" for v
  proof (cases "v \<in> set ?ts")
    case True
    from pos [OF True] zero [OF v] have "v \<notin> set queue" by simp
    with True show ?thesis by (auto simp: q' deg')
  next
    case False
    with zero [OF v] show ?thesis by (simp add: q' deg')
  qed
  have dq': "distinct queue'"
  proof -
    have "set queue \<inter> set (filter (\<lambda>v. degree_of indegrees v = 1) ?ts) = {}"
    proof (rule ccontr)
      assume "set queue \<inter> set (filter (\<lambda>v. degree_of indegrees v = 1) ?ts) \<noteq> {}"
      then obtain v where v: "v \<in> set queue" "degree_of indegrees v = 1" by auto
      with qN zero [of v] show False by auto
    qed
    with dq dts show ?thesis by (simp add: q')
  qed
  have qN': "set queue' \<subseteq> set N" using qN tsN keyset by (auto simp: q')
  show ?thesis
    unfolding kahn_inv_def
  proof (intro conjI ballI)
    show "map fst indegrees' = N" using keys keys' by simp
    show "distinct queue'" by (rule dq')
    show "set queue' \<subseteq> set N" by (rule qN')
    show "Suc index \<le> length queue'" using lt by (simp add: q')
    show "order @ [?c] = take (Suc index) queue'" using ord tk by simp
    show "degree_of indegrees' v = int (card (waiting ?E (set (take (Suc index) queue')) v))"
      if "v \<in> set N" for v
      using new_deg [OF that] P' by simp
    show "(v \<in> set queue') = (degree_of indegrees' v = 0)" if "v \<in> set N" for v
      by (rule new_zero [OF that])
  qed
qed

lemma kahn_inv_final:
  assumes ok: "graph_ok table N"
    and inv: "kahn_inv table N indegrees queue index order"
    and ge: "\<not> index < length queue"
  shows "distinct order \<and> set order = set N"
proof -
  let ?E = "edges_of table"
  from ok have acyc: "acyclic ?E"
    and ends: "\<And>a b. (a, b) \<in> ?E \<Longrightarrow> a \<in> set N \<and> b \<in> set N"
    by (auto simp: graph_ok_def)
  from inv ge have ord: "order = queue" and tk: "take index queue = queue"
    and dq: "distinct queue" and qN: "set queue \<subseteq> set N"
    and deg: "\<And>v. v \<in> set N \<Longrightarrow> degree_of indegrees v = int (card (waiting ?E (set queue) v))"
    and zero: "\<And>v. v \<in> set N \<Longrightarrow> v \<in> set queue \<longleftrightarrow> degree_of indegrees v = 0"
    by (auto simp: kahn_inv_def)
  have wf: "wf ?E" using finite_edges_of acyc by (rule finite_acyclic_wf)
  have "set N \<subseteq> set queue"
  proof (rule ccontr)
    assume "\<not> set N \<subseteq> set queue"
    then obtain x where x: "x \<in> set N - set queue" by auto
    from wfE_min [OF wf x] obtain z where z: "z \<in> set N - set queue"
      and least: "\<And>y. (y, z) \<in> ?E \<Longrightarrow> y \<notin> set N - set queue" by blast
    from z zero [of z] deg [of z] have "card (waiting ?E (set queue) z) \<noteq> 0" by auto
    then have "waiting ?E (set queue) z \<noteq> {}" by auto
    then obtain u where u: "(u, z) \<in> ?E" "u \<notin> set queue" by (auto simp: waiting_def)
    with ends [OF u(1)] least [OF u(1)] show False by auto
  qed
  with qN dq ord show ?thesis by auto
qed

lemma kahn_loop_correct:
  "graph_ok table N \<Longrightarrow> kahn_inv table N indegrees queue index order \<Longrightarrow>
   distinct (kahn_loop table indegrees queue index order)
   \<and> set (kahn_loop table indegrees queue index order) = set N"
proof (induction table indegrees queue index order rule: kahn_loop.induct)
  case (1 table indegrees queue index order)
  show ?case
  proof (cases "index < length queue")
    case False
    then have "kahn_loop table indegrees queue index order = order"
      by (subst kahn_loop.simps) simp
    with kahn_inv_final [OF "1.prems" False] show ?thesis by simp
  next
    case True
    let ?r = "fold relax (targets_or_empty table (queue ! index)) (indegrees, queue)"
    have "kahn_inv table N (fst ?r) (snd ?r) (Suc index) (order @ [queue ! index])"
      by (rule kahn_inv_step [OF "1.prems" True]) simp
    note ih = "1.IH" [OF True refl refl "1.prems"(1) this]
    from True have "kahn_loop table indegrees queue index order
        = kahn_loop table (fst ?r) (snd ?r) (Suc index) (order @ [queue ! index])"
      by (subst kahn_loop.simps) (simp add: Let_def)
    with ih show ?thesis by simp
  qed
qed

lemma dag_inv_graph_ok: "dag_inv d \<Longrightarrow> graph_ok (outgoing d) (map fst (nodeMap d))"
  unfolding graph_ok_def
proof (intro conjI allI impI)
  assume inv: "dag_inv d"
  note D = dag_invD [OF inv]
  show "distinct (map fst (nodeMap d))" by (rule D(1))
  show "sets_ok (outgoing d)" by (rule D(4))
  show "acyclic (edges_of (outgoing d))" by (rule D(6))
  fix a b assume "(a, b) \<in> edges_of (outgoing d)"
  then have "(a, b) \<in> edge_rel d" by (simp add: edge_rel_def)
  from dag_inv_endpoints [OF inv this]
  show "a \<in> set (map fst (nodeMap d))" and "b \<in> set (map fst (nodeMap d))"
    by (simp_all add: hasNode_keys)
qed

lemma size_or_zero_waiting:
  assumes inv: "dag_inv d"
  shows "size_or_zero (incoming d) v = card (waiting (edges_of (outgoing d)) {} v)"
proof (cases "map_of (incoming d) v")
  case None
  then have "(v, u) \<notin> edges_of (incoming d)" for u by (simp add: in_edges_of_conv)
  then have "waiting (edges_of (outgoing d)) {} v = {}"
    by (auto simp: waiting_def dag_inv_converse [OF inv])
  with None show ?thesis by (simp add: size_or_zero_def)
next
  case (Some s)
  then have "(v, u) \<in> edges_of (incoming d) \<longleftrightarrow> u \<in> set s" for u by (simp add: in_edges_of_conv)
  then have "waiting (edges_of (outgoing d)) {} v = set s"
    by (auto simp: waiting_def dag_inv_converse [OF inv])
  moreover from sets_okD [OF dag_invD(5) [OF inv] Some] have "card (set s) = length s"
    by (rule distinct_card)
  ultimately show ?thesis using Some by (simp add: size_or_zero_def)
qed

lemma map_of_keyed:
  "map_of (map (\<lambda>(k, v). (k, g k)) al) x = (if x \<in> fst ` set al then Some (g x) else None)"
  by (induction al) auto

lemma kahn_inv_initial:
  assumes inv: "dag_inv d"
  defines "indegrees \<equiv> map (\<lambda>(k, v). (k, int (size_or_zero (incoming d) k))) (nodeMap d)"
  defines "queue \<equiv> map fst (filter (\<lambda>(k, degree). degree = 0) indegrees)"
  shows "kahn_inv (outgoing d) (map fst (nodeMap d)) indegrees queue 0 []"
proof -
  let ?N = "map fst (nodeMap d)"
  have keys: "map fst indegrees = ?N" by (simp add: indegrees_def case_prod_unfold comp_def)
  have dk: "distinct (map fst indegrees)" using keys dag_invD(1) [OF inv] by simp
  have deg: "degree_of indegrees v = int (size_or_zero (incoming d) v)" if "v \<in> set ?N" for v
    using that by (simp add: degree_of_def indegrees_def map_of_keyed)
  have mem: "v \<in> set queue \<longleftrightarrow> v \<in> set ?N \<and> degree_of indegrees v = 0" for v
  proof
    assume "v \<in> set queue"
    then have "(v, 0) \<in> set indegrees" by (auto simp: queue_def)
    then have "map_of indegrees v = Some 0" using dk by simp
    moreover from \<open>(v, 0) \<in> set indegrees\<close> have "v \<in> set (map fst indegrees)"
      by (auto intro: rev_image_eqI)
    ultimately show "v \<in> set ?N \<and> degree_of indegrees v = 0"
      using keys by (simp add: degree_of_def)
  next
    assume a: "v \<in> set ?N \<and> degree_of indegrees v = 0"
    then have "v \<in> fst ` set indegrees" using keys by (metis set_map)
    then have "map_of indegrees v \<noteq> None" by (simp add: map_of_eq_None_iff)
    with a have "map_of indegrees v = Some 0" by (auto simp: degree_of_def)
    then have "(v, 0) \<in> set indegrees" by (rule map_of_SomeD)
    then show "v \<in> set queue" by (auto simp: queue_def intro: rev_image_eqI)
  qed
  show ?thesis
    unfolding kahn_inv_def
  proof (intro conjI ballI)
    show "map fst indegrees = ?N" by (rule keys)
    show "distinct queue" unfolding queue_def using dk by (rule distinct_map_filter)
    show "set queue \<subseteq> set ?N" using mem by auto
    show "0 \<le> length queue" by simp
    show "[] = take 0 queue" by simp
    show "degree_of indegrees v = int (card (waiting (edges_of (outgoing d)) (set (take 0 queue)) v))"
      if "v \<in> set ?N" for v
      using deg [OF that] size_or_zero_waiting [OF inv, of v] by simp
    show "(v \<in> set queue) = (degree_of indegrees v = 0)" if "v \<in> set ?N" for v
      using mem [of v] that by simp
  qed
qed

lemma topologicalSort_total:
  assumes inv: "dag_inv d"
  shows "\<exists>order. topologicalSort d = Inr order \<and> length order = size_dag d
                \<and> distinct order \<and> set order = fst ` set (nodeMap d)"
proof -
  let ?indegrees = "map (\<lambda>(k, v). (k, int (size_or_zero (incoming d) k))) (nodeMap d)"
  let ?queue = "map fst (filter (\<lambda>(k, degree). degree = 0) ?indegrees)"
  let ?order = "kahn_loop (outgoing d) ?indegrees ?queue 0 []"
  from kahn_loop_correct [OF dag_inv_graph_ok [OF inv] kahn_inv_initial [OF inv]]
  have d: "distinct ?order" and s: "set ?order = set (map fst (nodeMap d))" by simp_all
  from distinct_card [OF d] have "length ?order = card (set ?order)" by simp
  also have "\<dots> = card (set (map fst (nodeMap d)))" using s by simp
  also have "\<dots> = length (map fst (nodeMap d))"
    using dag_invD(1) [OF inv] by (rule distinct_card)
  finally have len: "length ?order = size_dag d" by (simp add: size_dag_def)
  have "topologicalSort d = Inr ?order"
    using len by (simp add: topologicalSort_def Let_def)
  with len d s show ?thesis by auto
qed

subsection \<open>Acyclicity of every graph that the methods can build\<close>












subsection \<open>Outcomes of \<open>addEdge\<close>\<close>



subsection \<open>Rebuilding a graph from its snapshot\<close>








section \<open>Properties of the playback engine\<close>

subsection \<open>Advancing through the instructions of a node\<close>

lemma executeCommand_state:
  "executeCommand J now cmd e =
     ([Command cmd (commandIndex (state e)) (currentNodeId (state e))],
      e\<lparr>state := state (snd (executeCommand J now cmd e))\<rparr>)
   \<and> commandIndex (state (snd (executeCommand J now cmd e))) = commandIndex (state e)
   \<and> currentNodeId (state (snd (executeCommand J now cmd e))) = currentNodeId (state e)
   \<and> visitedNodes (state (snd (executeCommand J now cmd e))) = visitedNodes (state e)"
  by (cases cmd) (simp_all add: executeCommand_def Let_def)

lemma executeCommand_effect:
  "\<exists>s'. executeCommand J now cmd e =
          ([Command cmd (commandIndex (state e)) (currentNodeId (state e))], e\<lparr>state := s'\<rparr>)
      \<and> commandIndex s' = commandIndex (state e)
      \<and> currentNodeId s' = currentNodeId (state e)
      \<and> visitedNodes s' = visitedNodes (state e)"
  using executeCommand_state [of J now cmd e] by blast

lemma next_executes_one_command:
  assumes "\<not> ended e" "\<not> paused e"
    and "getNodeValue (dag e) (currentNodeId (state e)) = Some nd"
    and "commandIndex (state e) < length (commands nd)"
  shows "\<exists>s'. next J now e =
           (None,
            [Command (commands nd ! commandIndex (state e)) (commandIndex (state e))
               (currentNodeId (state e)),
             StateChange s'],
            e\<lparr>state := s'\<rparr>)
       \<and> commandIndex s' = commandIndex (state e) + 1
       \<and> currentNodeId s' = currentNodeId (state e)
       \<and> visitedNodes s' = visitedNodes (state e)"
proof -
  from executeCommand_effect [of J now "commands nd ! commandIndex (state e)" e]
  obtain s1 where s1:
    "executeCommand J now (commands nd ! commandIndex (state e)) e =
       ([Command (commands nd ! commandIndex (state e)) (commandIndex (state e))
           (currentNodeId (state e))], e\<lparr>state := s1\<rparr>)"
    "commandIndex s1 = commandIndex (state e)" "currentNodeId s1 = currentNodeId (state e)"
    "visitedNodes s1 = visitedNodes (state e)"
    by blast
  let ?s' = "s1\<lparr>commandIndex := commandIndex s1 + 1\<rparr>"
  have "next J now e =
           (None,
            [Command (commands nd ! commandIndex (state e)) (commandIndex (state e))
               (currentNodeId (state e)),
             StateChange ?s'],
            e\<lparr>state := ?s'\<rparr>)"
    using assms s1(1) by (simp add: next_def Let_def emitStateChange_def getState_def)
  with s1(2-4) show ?thesis by (intro exI [of _ ?s']) simp
qed

lemma advance_times_commands:
  "\<not> ended e \<Longrightarrow> \<not> paused e \<Longrightarrow>
   getNodeValue (dag e) (currentNodeId (state e)) = Some nd \<Longrightarrow>
   commandIndex (state e) + length stamps \<le> length (commands nd) \<Longrightarrow>
   advance_times J stamps e = (evss, e') \<Longrightarrow>
   length evss = length stamps
   \<and> (\<forall>i < length stamps. \<exists>s.
         evss ! i = [Command (commands nd ! (commandIndex (state e) + i))
                       (commandIndex (state e) + i) (currentNodeId (state e)),
                     StateChange s]
         \<and> commandIndex s = commandIndex (state e) + i + 1)
   \<and> commandIndex (state e') = commandIndex (state e) + length stamps
   \<and> currentNodeId (state e') = currentNodeId (state e)
   \<and> dag e' = dag e \<and> \<not> ended e' \<and> \<not> paused e'"
proof (induction stamps arbitrary: e evss e')
  case Nil
  then show ?case by simp
next
  case (Cons now stamps)
  let ?k = "commandIndex (state e)" and ?n = "currentNodeId (state e)"
  from Cons.prems(4) have lt: "?k < length (commands nd)" by simp
  from next_executes_one_command [OF Cons.prems(1-3) lt, of J now]
  obtain s1 where s1:
    "next J now e = (None, [Command (commands nd ! ?k) ?k ?n, StateChange s1], e\<lparr>state := s1\<rparr>)"
    "commandIndex s1 = ?k + 1" "currentNodeId s1 = ?n"
    by blast
  let ?e1 = "e\<lparr>state := s1\<rparr>"
  obtain rest e2 where rest: "advance_times J stamps ?e1 = (rest, e2)"
    by (cases "advance_times J stamps ?e1")
  have p1: "\<not> ended ?e1" "\<not> paused ?e1" using Cons.prems(1,2) by simp_all
  have p3: "getNodeValue (dag ?e1) (currentNodeId (state ?e1)) = Some nd"
    using Cons.prems(3) s1(3) by simp
  have p4: "commandIndex (state ?e1) + length stamps \<le> length (commands nd)"
    using Cons.prems(4) s1(2) by simp
  note ih = Cons.IH [OF p1 p3 p4 rest]
  have evss: "evss = [Command (commands nd ! ?k) ?k ?n, StateChange s1] # rest" and e': "e' = e2"
    using Cons.prems(5) s1(1) rest by simp_all
  have "\<exists>s. evss ! i = [Command (commands nd ! (?k + i)) (?k + i) ?n, StateChange s]
            \<and> commandIndex s = ?k + i + 1" if i: "i < length (now # stamps)" for i
  proof (cases i)
    case 0
    with s1(2) show ?thesis by (simp add: evss)
  next
    case (Suc j)
    with i have "j < length stamps" by simp
    with ih obtain s where "rest ! j = [Command (commands nd ! (commandIndex (state ?e1) + j))
                       (commandIndex (state ?e1) + j) (currentNodeId (state ?e1)),
                     StateChange s]" "commandIndex s = commandIndex (state ?e1) + j + 1"
      by blast
    with Suc s1(2,3) show ?thesis by (simp add: evss)
  qed
  moreover have "length evss = length (now # stamps)" using ih by (simp add: evss)
  moreover have "commandIndex (state e') = ?k + length (now # stamps)"
    using ih s1(2) by (simp add: e')
  moreover have "currentNodeId (state e') = ?n" using ih s1(3) by (simp add: e')
  moreover have "dag e' = dag e \<and> \<not> ended e' \<and> \<not> paused e'" using ih by (simp add: e')
  ultimately show ?case by blast
qed

lemma next_resolves_transition:
  assumes "\<not> ended e" "\<not> paused e"
    and "getNodeValue (dag e) (currentNodeId (state e)) = Some nd"
    and "\<not> commandIndex (state e) < length (commands nd)"
  shows "next J now e =
           (fst (handleTransition J (transition nd) e),
            NodeEnd (currentNodeId (state e)) # fst (snd (handleTransition J (transition nd) e)),
            snd (snd (handleTransition J (transition nd) e)))"
  using assms by (simp add: next_def case_prod_unfold Let_def)

lemma count_commands:
  "(\<forall>i < length xs. \<exists>c k n s. xs ! i = [Command c k n, StateChange s]) \<Longrightarrow>
   length (filter is_Command (concat xs)) = length xs"
proof (induction xs)
  case Nil
  then show ?case by simp
next
  case (Cons x xs)
  from Cons.prems have "\<exists>c k n s. (x # xs) ! 0 = [Command c k n, StateChange s]" by blast
  then obtain c k n s where x: "x = [Command c k n, StateChange s]" by auto
  have "\<forall>i < length xs. \<exists>c k n s. xs ! i = [Command c k n, StateChange s]"
  proof (intro allI impI)
    fix i assume "i < length xs"
    then have "Suc i < length (x # xs)" by simp
    with Cons.prems have "\<exists>c k n s. (x # xs) ! Suc i = [Command c k n, StateChange s]" by blast
    then show "\<exists>c k n s. xs ! i = [Command c k n, StateChange s]" by simp
  qed
  from Cons.IH [OF this] show ?case by (simp add: x)
qed

lemma jumpToNode_no_command: "\<not> list_ex is_Command (fst (jumpToNode n e))"
  by (simp add: jumpToNode_def Let_def emitStateChange_def)

lemma handleTransition_no_command: "\<not> list_ex is_Command (fst (snd (handleTransition J t e)))"
proof (cases t)
  case None
  then show ?thesis
    by (cases "successors (dag e) (currentNodeId (state e))")
       (simp_all add: handleTransition_def returned_def doEnding_def jumpToNode_no_command)
next
  case (Some tr)
  then show ?thesis
  proof (cases tr)
    case (AutoTransition n)
    with Some show ?thesis
      using jumpToNode_no_command [of n e]
      by (simp add: handleTransition_def returned_def handleAutoTransition_def case_prod_unfold Let_def)
  next
    case (ChoiceTransition p cs)
    with Some show ?thesis
      by (simp add: handleTransition_def returned_def handleChoiceTransition_def)
  next
    case (ConditionalTransition bs fb)
    with Some show ?thesis
      by (simp add: handleTransition_def returned_def handleConditionalTransition_def
                    jumpToNode_no_command split: option.splits)
  next
    case (EndTransition a b)
    with Some show ?thesis
      by (simp add: handleTransition_def returned_def handleEndTransition_def doEnding_def)
  qed
qed

text \<open>
  Claim C3. On a running engine whose current node has \<open>N\<close> instructions and whose cursor is
  at 0, \<open>N\<close> calls of \<open>next\<close> emit, call by call, one command event for the instruction at
  the cursor (with its index and the node's id) followed by a state-change event, and move
  the cursor by one; that makes exactly \<open>N\<close> command events. The call after these emits the
  node-end event first, then whatever resolving the node's transition emits, and no command
  event. Nothing in this depends on what the instructions are.
\<close>

theorem next_emits_each_instruction_then_node_end:
  assumes "\<not> ended e" and "\<not> paused e"
    and "getNodeValue (dag e) (currentNodeId (state e)) = Some nd"
    and "commandIndex (state e) = 0"
    and "length stamps = length (commands nd)"
    and "advance_times J stamps e = (evss, e')"
  shows "length evss = length (commands nd)
       \<and> (\<forall>i < length (commands nd). \<exists>s.
             evss ! i = [Command (commands nd ! i) i (currentNodeId (state e)), StateChange s]
             \<and> commandIndex s = i + 1)
       \<and> length (filter is_Command (concat evss)) = length (commands nd)
       \<and> commandIndex (state e') = length (commands nd)
       \<and> (\<forall>now. next J now e' =
             (fst (handleTransition J (transition nd) e'),
              NodeEnd (currentNodeId (state e)) # fst (snd (handleTransition J (transition nd) e')),
              snd (snd (handleTransition J (transition nd) e')))
           \<and> \<not> list_ex is_Command (fst (snd (handleTransition J (transition nd) e'))))"
proof -
  have le: "commandIndex (state e) + length stamps \<le> length (commands nd)"
    using assms(4,5) by simp
  note run = advance_times_commands [OF assms(1-3) le assms(6)]
  from run have len: "length evss = length (commands nd)" using assms(5) by simp
  from run have each: "\<forall>i < length (commands nd). \<exists>s.
             evss ! i = [Command (commands nd ! i) i (currentNodeId (state e)), StateChange s]
             \<and> commandIndex s = i + 1"
    using assms(4,5) by simp
  have "\<forall>i < length evss. \<exists>c k n s. evss ! i = [Command c k n, StateChange s]"
    using each len by metis
  from count_commands [OF this] len
  have count: "length (filter is_Command (concat evss)) = length (commands nd)" by simp
  from run have idx: "commandIndex (state e') = length (commands nd)"
    and same: "currentNodeId (state e') = currentNodeId (state e)" "dag e' = dag e"
    and flags: "\<not> ended e'" "\<not> paused e'"
    using assms(4,5) by simp_all
  have node: "getNodeValue (dag e') (currentNodeId (state e')) = Some nd"
    using assms(3) same by simp
  have fin: "\<not> commandIndex (state e') < length (commands nd)" using idx by simp
  have "next J now e' =
             (fst (handleTransition J (transition nd) e'),
              NodeEnd (currentNodeId (state e)) # fst (snd (handleTransition J (transition nd) e')),
              snd (snd (handleTransition J (transition nd) e')))" for now
    using next_resolves_transition [OF flags node fin, of J now] same by simp
  with len each count idx handleTransition_no_command [of J "transition nd" e']
  show ?thesis by blast
qed

subsection \<open>A sample host and a sample story\<close>

text \<open>
  A host to run examples on: its numbers are the integers and \<open>NaN\<close> (\<open>None\<close>). It agrees with
  JavaScript on strings of decimal digits and on the empty string. No theorem about the
  engine depends on it.
\<close>

fun parse_digits :: "string \<Rightarrow> int \<Rightarrow> int option" where
  "parse_digits [] acc = Some acc"
| "parse_digits (c # cs) acc =
     (if c \<in> set ''0123456789'' then parse_digits cs (10 * acc + (int (of_char c) - 48))
      else None)"

definition sample_host :: "int option host" where
  "sample_host =
     \<lparr>parse_number = (\<lambda>s. parse_digits s 0),
      num_nan = None, num_zero = Some 0, num_one = Some 1,
      num_lt = (\<lambda>a b. case (a, b) of (Some x, Some y) \<Rightarrow> x < y | _ \<Rightarrow> False),
      num_le = (\<lambda>a b. case (a, b) of (Some x, Some y) \<Rightarrow> x \<le> y | _ \<Rightarrow> False),
      num_eq = (\<lambda>a b. case (a, b) of (Some x, Some y) \<Rightarrow> x = y | _ \<Rightarrow> False),
      num_add = (\<lambda>a b. case (a, b) of (Some x, Some y) \<Rightarrow> Some (x + y) | _ \<Rightarrow> None),
      num_sub = (\<lambda>a b. case (a, b) of (Some x, Some y) \<Rightarrow> Some (x - y) | _ \<Rightarrow> None),
      num_truthy = (\<lambda>a. case a of Some x \<Rightarrow> x \<noteq> 0 | None \<Rightarrow> False)\<rparr>"

definition scene :: "'n SceneCommand list \<Rightarrow> 'n Transition option \<Rightarrow> 'n SceneNodeData" where
  "scene cs t = \<lparr>title = ''scene'', description = None, commands = cs, transition = t, tags = None\<rparr>"

definition affection_at_least :: "int \<Rightarrow> int option Condition" where
  "affection_at_least n =
     \<lparr>cond_variable = ''affection'', cond_operator = OpGe, cond_value = VNum (Some n)\<rparr>"

definition story_choices :: "int option Choice list" where
  "story_choices =
     [\<lparr>choice_text = ''Be kind'', choice_target = ''judge'', choice_conditions = None,
       choice_effects = Some [(''affection'', VNum (Some 5))]\<rparr>,
      \<lparr>choice_text = ''Ask the secret'', choice_target = ''good_end'',
       choice_conditions = Some [affection_at_least 5], choice_effects = None\<rparr>,
      \<lparr>choice_text = ''Walk away'', choice_target = ''judge'', choice_conditions = Some [],
       choice_effects = None\<rparr>]"

definition story :: "int option GameScript" where
  "story =
     \<lparr>script_id = ''demo'', script_title = ''Demo'', version = ''1'', author = None,
      characters = [\<lparr>char_id = ''alice'', char_name = ''Alice'', nameColor = None, avatar = None,
                     expressions = []\<rparr>],
      script_variables = [\<lparr>var_key = ''affection'', defaultValue = VNum (Some 3),
                           var_description = None\<rparr>],
      entryNodeId = ''start'',
      script_nodes =
        [(''start'', scene [Narration ''Morning.'',
                            Dialogue ''alice'' None ''Hello'' None,
                            SetVariable ''affection'' (VNum (Some 1)) (Some OpAdd)] None),
         (''crossroad'', scene [Wait (Some 500)]
                          (Some (ChoiceTransition (Some ''What now?'') story_choices))),
         (''judge'', scene [] (Some (ConditionalTransition
                                       [([affection_at_least 5], ''good_end'')]
                                       (Some ''normal_end'')))),
         (''good_end'', scene [] (Some (EndTransition (Some ''Together'') (Some ''good'')))),
         (''normal_end'', scene [] None),
         (''fork'', scene [] None)],
      script_edges =
        [(''start'', ''crossroad''), (''crossroad'', ''judge''), (''crossroad'', ''good_end''),
         (''judge'', ''good_end''), (''judge'', ''normal_end''),
         (''fork'', ''good_end''), (''fork'', ''normal_end'')]\<rparr>"

definition story_engine :: "int option engine" where
  "story_engine = (case loadScript story new_engine of Inr e \<Rightarrow> e | Inl err \<Rightarrow> new_engine)"

text \<open>An engine placed at a node and a cursor, as \<open>loadState\<close> would place it.\<close>

definition placed_at :: "NodeId \<Rightarrow> nat \<Rightarrow> 'n engine \<Rightarrow> 'n engine" where
  "placed_at n k e = e\<lparr>state := (state e)\<lparr>currentNodeId := n, commandIndex := k\<rparr>\<rparr>"

definition start_scene :: "int option SceneNodeData" where
  "start_scene = scene [Narration ''Morning.'',
                        Dialogue ''alice'' None ''Hello'' None,
                        SetVariable ''affection'' (VNum (Some 1)) (Some OpAdd)] None"

theorem next_emits_each_instruction_then_node_end_witness:
  "\<not> ended story_engine \<and> \<not> paused story_engine
   \<and> getNodeValue (dag story_engine) (currentNodeId (state story_engine)) = Some start_scene
   \<and> commandIndex (state story_engine) = 0
   \<and> length (commands start_scene) = 3
   \<and> length (fst (advance_times sample_host [10, 20, 30] story_engine)) = 3
   \<and> (\<exists>s. fst (advance_times sample_host [10, 20, 30] story_engine) ! 2
            = [Command (SetVariable ''affection'' (VNum (Some 1)) (Some OpAdd)) 2 ''start'',
               StateChange s]
          \<and> commandIndex s = 3)
   \<and> length (filter is_Command (concat (fst (advance_times sample_host [10, 20, 30] story_engine)))) = 3
   \<and> hd (fst (snd (next sample_host 40 (snd (advance_times sample_host [10, 20, 30] story_engine)))))
       = NodeEnd ''start''"
proof -
  define run where "run = advance_times sample_host [10, 20, 30] story_engine"
  have h1: "\<not> ended story_engine" by code_simp
  have h2: "\<not> paused story_engine" by code_simp
  have h3: "getNodeValue (dag story_engine) (currentNodeId (state story_engine)) = Some start_scene"
    by code_simp
  have h4: "commandIndex (state story_engine) = 0" by code_simp
  have n: "length (commands start_scene) = 3" by (simp add: start_scene_def scene_def)
  have h5: "length [10, 20, 30 :: nat] = length (commands start_scene)" using n by simp
  have h6: "advance_times sample_host [10, 20, 30] story_engine = (fst run, snd run)"
    unfolding run_def by (rule prod.collapse [symmetric])
  have c: "commands start_scene ! 2 = SetVariable ''affection'' (VNum (Some 1)) (Some OpAdd)"
    by (simp add: start_scene_def scene_def)
  have nid: "currentNodeId (state story_engine) = ''start''" by code_simp
  note t = next_emits_each_instruction_then_node_end [OF h1 h2 h3 h4 h5 h6]
  from t have len: "length (fst run) = 3" and cnt: "length (filter is_Command (concat (fst run))) = 3"
    unfolding n by blast+
  from t have "\<forall>i < length (commands start_scene). \<exists>s.
      fst run ! i = [Command (commands start_scene ! i) i (currentNodeId (state story_engine)),
                     StateChange s] \<and> commandIndex s = i + 1"
    by blast
  then have "\<exists>s. fst run ! 2 = [Command (commands start_scene ! 2) 2 (currentNodeId (state story_engine)),
                 StateChange s] \<and> commandIndex s = 2 + 1"
    unfolding n by (rule allE [of _ 2]) simp
  then have third: "\<exists>s. fst run ! 2
            = [Command (SetVariable ''affection'' (VNum (Some 1)) (Some OpAdd)) 2 ''start'',
               StateChange s] \<and> commandIndex s = 3"
    by (simp add: c nid)
  from t have "next sample_host 40 (snd run) =
             (fst (handleTransition sample_host (transition start_scene) (snd run)),
              NodeEnd (currentNodeId (state story_engine)) #
                fst (snd (handleTransition sample_host (transition start_scene) (snd run))),
              snd (snd (handleTransition sample_host (transition start_scene) (snd run))))"
    by blast
  then have last: "hd (fst (snd (next sample_host 40 (snd run)))) = NodeEnd ''start''"
    by (simp add: nid)
  from n h1 h2 h3 h4 len third cnt last show ?thesis
    unfolding run_def by blast
qed

subsection \<open>Resolving the transition of a node\<close>

text \<open>The runtime state after a jump that succeeded.\<close>

definition after_jump :: "NodeId \<Rightarrow> 'n GameState \<Rightarrow> 'n GameState" where
  "after_jump targetId s =
     (if currentNodeId s \<notin> set (visitedNodes s)
      then s\<lparr>visitedNodes := visitedNodes s @ [currentNodeId s]\<rparr> else s)
     \<lparr>currentNodeId := targetId, commandIndex := 0\<rparr>"

lemma jumpToNode_present:
  "hasNode (dag e) n \<Longrightarrow>
   jumpToNode n e = ([StateChange (after_jump n (state e))], e\<lparr>state := after_jump n (state e)\<rparr>)"
  by (simp add: jumpToNode_def after_jump_def Let_def emitStateChange_def getState_def)

lemma jumpToNode_absent:
  "\<not> hasNode (dag e) n \<Longrightarrow> jumpToNode n e = ([Error (TargetNotFound n)], e)"
  by (simp add: jumpToNode_def)

lemma successors_of_node:
  assumes inv: "dag_inv d" and n: "hasNode d n"
  shows "\<exists>ss. successors d n = Inr ss \<and> (\<forall>s \<in> set ss. hasNode d s)"
proof -
  from dag_inv_adjacency(1) [OF inv n] obtain ss where ss: "map_of (outgoing d) n = Some ss"
    by auto
  have "hasNode d s" if "s \<in> set ss" for s
  proof -
    from ss that have "(n, s) \<in> edge_rel d" by (simp add: edge_rel_def in_edges_of_conv)
    from dag_inv_endpoints(2) [OF inv this] show ?thesis .
  qed
  with n ss show ?thesis by (simp add: successors_def)
qed

lemma addNodes_calls:
  "addNodes ns g = Inr d \<Longrightarrow> d = fold after_call (map (\<lambda>(k, v). AddNode k v) ns) g"
proof (induction ns arbitrary: g)
  case Nil
  then show ?case by simp
next
  case (Cons n ns)
  obtain k v where n: "n = (k, v)" by (cases n)
  from Cons.prems n obtain g1 where g1: "addNode k v g = (None, g1)" "addNodes ns g1 = Inr d"
    by (auto split: prod.splits option.splits)
  from Cons.IH [OF g1(2)] g1(1) show ?case by (simp add: n)
qed

lemma addEdges_calls:
  "addEdges es g = Inr d \<Longrightarrow> d = fold after_call (map (\<lambda>(f, t). AddEdge f t) es) g"
proof (induction es arbitrary: g)
  case Nil
  then show ?case by simp
next
  case (Cons x es)
  obtain f t where x: "x = (f, t)" by (cases x)
  from Cons.prems x obtain g1 where g1: "addEdge f t g = (None, g1)" "addEdges es g1 = Inr d"
    by (auto split: prod.splits option.splits)
  from Cons.IH [OF g1(2)] g1(1) show ?case by (simp add: x)
qed

lemma new_dag_built:
  assumes "new_dag ns es = Inr d"
  shows "d = built (map (\<lambda>(k, v). AddNode k v) ns @ map (\<lambda>(f, t). AddEdge f t) es)"
proof -
  from assms obtain g where g: "addNodes ns empty_dag = Inr g" "addEdges es g = Inr d"
    by (auto simp: new_dag_def split: sum.splits)
  from addNodes_calls [OF g(1)] addEdges_calls [OF g(2)] show ?thesis
    by (simp add: built_def)
qed

lemma loadScript_dag_built:
  "loadScript script e0 = Inr e \<Longrightarrow>
   dag e = built (map (\<lambda>(k, v). AddNode k v) (script_nodes script)
                  @ map (\<lambda>(f, t). AddEdge f t) (script_edges script))"
  by (auto simp: loadScript_def split: sum.splits dest: new_dag_built)

text \<open>
  Claim C4. When the instructions of the current node are exhausted and the node has no
  transition descriptor, \<open>next\<close> emits the node-end event and then: with exactly one
  successor in the graph, jumps to it (the state-change event carries the new position);
  with no successor, ends the story with an ending event that has neither name nor
  category; with more than one successor, emits an error event and changes nothing.
\<close>

theorem next_without_transition:
  assumes "dag e = built calls" and "\<not> ended e" and "\<not> paused e"
    and "getNodeValue (dag e) (currentNodeId (state e)) = Some nd"
    and "\<not> commandIndex (state e) < length (commands nd)"
    and "transition nd = None"
  shows "\<exists>ss. successors (dag e) (currentNodeId (state e)) = Inr ss
     \<and> (length ss = 1 \<longrightarrow>
          next J now e =
            (None,
             [NodeEnd (currentNodeId (state e)), StateChange (after_jump (hd ss) (state e))],
             e\<lparr>state := after_jump (hd ss) (state e)\<rparr>))
     \<and> (length ss = 0 \<longrightarrow>
          next J now e =
            (None,
             [NodeEnd (currentNodeId (state e)), Ending None None (currentNodeId (state e))],
             e\<lparr>ended := True\<rparr>))
     \<and> (1 < length ss \<longrightarrow>
          next J now e =
            (None,
             [NodeEnd (currentNodeId (state e)), Error (MultipleSuccessors (currentNodeId (state e)))],
             e))"
proof -
  let ?n = "currentNodeId (state e)"
  have inv: "dag_inv (dag e)" using assms(1) dag_inv_built by simp
  have n: "hasNode (dag e) ?n" using assms(4) by (simp add: hasNode_def getNodeValue_def)
  from successors_of_node [OF inv n] obtain ss where
    ss: "successors (dag e) ?n = Inr ss" "\<forall>s \<in> set ss. hasNode (dag e) s" by blast
  note nx = next_resolves_transition [OF assms(2-5), of J now, unfolded assms(6)]
  have one: "next J now e =
            (None, [NodeEnd ?n, StateChange (after_jump (hd ss) (state e))],
             e\<lparr>state := after_jump (hd ss) (state e)\<rparr>)" if l: "length ss = 1"
  proof -
    from l obtain s where s: "ss = [s]" by (cases ss) auto
    with ss(2) have "hasNode (dag e) s" by simp
    from jumpToNode_present [OF this] show ?thesis
      by (simp add: nx handleTransition_def ss(1) s returned_def)
  qed
  have zero: "next J now e = (None, [NodeEnd ?n, Ending None None ?n], e\<lparr>ended := True\<rparr>)"
    if "length ss = 0"
    using that by (simp add: nx handleTransition_def ss(1) returned_def doEnding_def)
  have many: "next J now e = (None, [NodeEnd ?n, Error (MultipleSuccessors ?n)], e)"
    if "1 < length ss"
    using that by (auto simp: nx handleTransition_def ss(1))
  from ss(1) one zero many show ?thesis by blast
qed

lemma story_loaded: "loadScript story new_engine = Inr story_engine"
  by code_simp

lemma story_dag_built:
  "dag (placed_at n k story_engine)
     = built (map (\<lambda>(k, v). AddNode k v) (script_nodes story)
              @ map (\<lambda>(f, t). AddEdge f t) (script_edges story))"
  using loadScript_dag_built [OF story_loaded] by (simp add: placed_at_def)

theorem next_without_transition_witness:
  "next sample_host 40 (placed_at ''start'' 3 story_engine)
     = (None,
        [NodeEnd ''start'',
         StateChange (after_jump ''crossroad'' (state (placed_at ''start'' 3 story_engine)))],
        (placed_at ''start'' 3 story_engine)
          \<lparr>state := after_jump ''crossroad'' (state (placed_at ''start'' 3 story_engine))\<rparr>)
   \<and> next sample_host 40 (placed_at ''normal_end'' 0 story_engine)
     = (None, [NodeEnd ''normal_end'', Ending None None ''normal_end''],
        (placed_at ''normal_end'' 0 story_engine)\<lparr>ended := True\<rparr>)
   \<and> next sample_host 40 (placed_at ''fork'' 0 story_engine)
     = (None, [NodeEnd ''fork'', Error (MultipleSuccessors ''fork'')],
        placed_at ''fork'' 0 story_engine)"
proof -
  let ?a = "placed_at ''start'' 3 story_engine"
  let ?b = "placed_at ''normal_end'' 0 story_engine"
  let ?c = "placed_at ''fork'' 0 story_engine"
  have a: "\<not> ended ?a" "\<not> paused ?a"
    "getNodeValue (dag ?a) (currentNodeId (state ?a)) = Some start_scene"
    "\<not> commandIndex (state ?a) < length (commands start_scene)"
    "transition start_scene = None"
    "successors (dag ?a) (currentNodeId (state ?a)) = Inr [''crossroad'']"
    "currentNodeId (state ?a) = ''start''"
    by code_simp+
  have b: "\<not> ended ?b" "\<not> paused ?b"
    "getNodeValue (dag ?b) (currentNodeId (state ?b)) = Some (scene [] None)"
    "\<not> commandIndex (state ?b) < length (commands (scene [] None :: int option SceneNodeData))"
    "transition (scene [] None :: int option SceneNodeData) = None"
    "successors (dag ?b) (currentNodeId (state ?b)) = Inr []"
    "currentNodeId (state ?b) = ''normal_end''"
    by code_simp+
  have c: "\<not> ended ?c" "\<not> paused ?c"
    "getNodeValue (dag ?c) (currentNodeId (state ?c)) = Some (scene [] None)"
    "successors (dag ?c) (currentNodeId (state ?c)) = Inr [''good_end'', ''normal_end'']"
    "currentNodeId (state ?c) = ''fork''"
    "\<not> commandIndex (state ?c) < length (commands (scene [] None :: int option SceneNodeData))"
    by code_simp+
  from next_without_transition [OF story_dag_built a(1-5), of sample_host 40] a(6,7)
  have one: "next sample_host 40 ?a
     = (None, [NodeEnd ''start'', StateChange (after_jump ''crossroad'' (state ?a))],
        ?a\<lparr>state := after_jump ''crossroad'' (state ?a)\<rparr>)"
    by auto
  from next_without_transition [OF story_dag_built b(1-5), of sample_host 40] b(6,7)
  have zero: "next sample_host 40 ?b
     = (None, [NodeEnd ''normal_end'', Ending None None ''normal_end''], ?b\<lparr>ended := True\<rparr>)"
    by auto
  from next_without_transition [OF story_dag_built c(1-3) c(6) b(5), of sample_host 40] c(4,5)
  have many: "next sample_host 40 ?c
     = (None, [NodeEnd ''fork'', Error (MultipleSuccessors ''fork'')], ?c)"
    by auto
  from one zero many show ?thesis by blast
qed

subsection \<open>Choices\<close>

lemma selectChoice_on_choice_node:
  assumes "getNodeValue (dag e) (currentNodeId (state e)) = Some nd"
    and "transition nd = Some (ChoiceTransition prompt choices)"
  shows "selectChoice J i e =
     (let visibleChoices = filter (evaluateChoiceVisible J (variables (state e))) choices
      in if i < 0 \<or> int (length visibleChoices) \<le> i then ([Error (InvalidChoiceIndex i)], e)
         else jumpToNode (choice_target (visibleChoices ! nat i))
                (e\<lparr>state := (state e)\<lparr>variables :=
                     apply_effects (visibleChoices ! nat i) (variables (state e))\<rparr>\<rparr>))"
  using assms by (simp add: selectChoice_def Let_def)





lemma selectChoice_not_choice_node:
  assumes "\<forall>nd prompt choices. getNodeValue (dag e) (currentNodeId (state e)) = Some nd
             \<longrightarrow> transition nd \<noteq> Some (ChoiceTransition prompt choices)"
  shows "selectChoice J i e = ([Error NotAChoiceNode], e)"
proof (cases "getNodeValue (dag e) (currentNodeId (state e))")
  case None
  then show ?thesis by (simp add: selectChoice_def)
next
  case (Some nd)
  with assms have "\<And>prompt choices. transition nd \<noteq> Some (ChoiceTransition prompt choices)"
    by blast
  with Some show ?thesis
    by (cases "transition nd"; cases "the (transition nd)") (simp_all add: selectChoice_def)
qed



subsection \<open>Conditional transitions\<close>







subsection \<open>What an error event leaves behind\<close>

lemma jumpToNode_error_unchanged:
  "Error m \<in> set (fst (jumpToNode n e)) \<Longrightarrow> snd (jumpToNode n e) = e"
  by (cases "hasNode (dag e) n") (simp_all add: jumpToNode_present jumpToNode_absent)

lemma handleTransition_error_unchanged:
  assumes "Error m \<in> set (fst (snd (handleTransition J t e)))"
  shows "snd (snd (handleTransition J t e)) = e"
proof (cases t)
  case None
  show ?thesis
  proof (cases "successors (dag e) (currentNodeId (state e))")
    case (Inl err)
    with None show ?thesis by (simp add: handleTransition_def)
  next
    case (Inr ss)
    consider "length ss = 1" | "length ss = 0" | "1 < length ss" by linarith
    then show ?thesis
    proof cases
      case 1
      with assms None Inr have "Error m \<in> set (fst (jumpToNode (ss ! 0) e))"
        by (simp add: handleTransition_def returned_def)
      from jumpToNode_error_unchanged [OF this] 1 None Inr show ?thesis
        by (simp add: handleTransition_def returned_def)
    next
      case 2
      with assms None Inr show ?thesis
        by (simp add: handleTransition_def returned_def doEnding_def)
    next
      case 3
      with None Inr show ?thesis by (auto simp: handleTransition_def)
    qed
  qed
next
  case (Some tr)
  show ?thesis
  proof (cases tr)
    case (AutoTransition n)
    with assms Some have "Error m \<in> set (fst (jumpToNode n e))"
      by (simp add: handleTransition_def returned_def handleAutoTransition_def
                    case_prod_unfold Let_def)
    from jumpToNode_error_unchanged [OF this] Some AutoTransition show ?thesis
      by (simp add: handleTransition_def returned_def handleAutoTransition_def
                    case_prod_unfold Let_def)
  next
    case (ChoiceTransition p cs)
    with Some show ?thesis
      by (simp add: handleTransition_def returned_def handleChoiceTransition_def)
  next
    case (ConditionalTransition bs fb)
    have "Error m \<in> set (fst (handleConditionalTransition J bs fb e))"
      using assms Some ConditionalTransition by (simp add: handleTransition_def returned_def)
    then have "snd (handleConditionalTransition J bs fb e) = e"
      by (auto simp: handleConditionalTransition_def jumpToNode_error_unchanged
               split: option.splits if_splits)
    with Some ConditionalTransition show ?thesis
      by (simp add: handleTransition_def returned_def)
  next
    case (EndTransition a b)
    with assms Some show ?thesis
      by (simp add: handleTransition_def returned_def handleEndTransition_def doEnding_def)
  qed
qed

text \<open>Every error event of \<open>next\<close> comes with the engine as it was before the call.\<close>

lemma next_error_unchanged:
  assumes "Error m \<in> set (fst (snd (next J now e)))"
  shows "snd (snd (next J now e)) = e"
proof (cases "ended e \<or> paused e")
  case True
  then show ?thesis by (auto simp: next_def)
next
  case False
  then have run: "\<not> ended e" "\<not> paused e" by simp_all
  show ?thesis
  proof (cases "getNodeValue (dag e) (currentNodeId (state e))")
    case None
    with run show ?thesis by (simp add: next_def)
  next
    case (Some nd)
    show ?thesis
    proof (cases "commandIndex (state e) < length (commands nd)")
      case True
      from next_executes_one_command [OF run Some True, of J now] assms show ?thesis by auto
    next
      case False
      note nx = next_resolves_transition [OF run Some False, of J now]
      from assms have "Error m \<in> set (fst (snd (handleTransition J (transition nd) e)))"
        by (simp add: nx)
      from handleTransition_error_unchanged [OF this] show ?thesis by (simp add: nx)
    qed
  qed
qed

text \<open>
  In \<open>selectChoice\<close> the two guards of the method itself come before any assignment; the
  effects of the choice, however, are written before \<open>jumpToNode\<close> checks the target.
\<close>

lemma selectChoice_error_unchanged_apart_from_jump:
  assumes "Error m \<in> set (fst (selectChoice J i e))" and "\<forall>n. m \<noteq> TargetNotFound n"
  shows "snd (selectChoice J i e) = e"
proof (cases "\<exists>nd prompt choices. getNodeValue (dag e) (currentNodeId (state e)) = Some nd
                \<and> transition nd = Some (ChoiceTransition prompt choices)")
  case False
  then show ?thesis by (simp add: selectChoice_not_choice_node)
next
  case True
  then obtain nd prompt choices where n: "getNodeValue (dag e) (currentNodeId (state e)) = Some nd"
    "transition nd = Some (ChoiceTransition prompt choices)" by blast
  let ?vis = "filter (evaluateChoiceVisible J (variables (state e))) choices"
  let ?e1 = "e\<lparr>state := (state e)\<lparr>variables := apply_effects (?vis ! nat i) (variables (state e))\<rparr>\<rparr>"
  note sel = selectChoice_on_choice_node [OF n, of J i]
  show ?thesis
  proof (cases "i < 0 \<or> int (length ?vis) \<le> i")
    case True
    then show ?thesis by (auto simp: sel Let_def)
  next
    case False
    then have eq: "selectChoice J i e = jumpToNode (choice_target (?vis ! nat i)) ?e1"
      by (simp add: sel Let_def)
    show ?thesis
    proof (cases "hasNode (dag ?e1) (choice_target (?vis ! nat i))")
      case True
      from assms(1) show ?thesis unfolding eq jumpToNode_present [OF True] by simp
    next
      case False
      from assms show ?thesis unfolding eq jumpToNode_absent [OF False] by simp
    qed
  qed
qed

text \<open>
  A script whose only choice points at a node that is not in the graph and sets a variable.
  \<open>loadScript\<close> accepts it: it builds the graph from the nodes and the edges and does not
  look at transition targets.
\<close>

definition dangling_choice :: "int option Choice" where
  "dangling_choice =
     \<lparr>choice_text = ''Open the door'', choice_target = ''nowhere'', choice_conditions = None,
      choice_effects = Some [(''door_open'', VBool True)]\<rparr>"

definition dangling_story :: "int option GameScript" where
  "dangling_story =
     \<lparr>script_id = ''dangling'', script_title = ''Dangling'', version = ''1'', author = None,
      characters = [],
      script_variables = [\<lparr>var_key = ''door_open'', defaultValue = VBool False,
                           var_description = None\<rparr>],
      entryNodeId = ''room'',
      script_nodes = [(''room'', scene [] (Some (ChoiceTransition None [dangling_choice])))],
      script_edges = []\<rparr>"

definition dangling_engine :: "int option engine" where
  "dangling_engine =
     (case loadScript dangling_story new_engine of Inr e \<Rightarrow> e | Inl err \<Rightarrow> new_engine)"

text \<open>
  Claim C6, at the input where the code departs from it: the jump of a selected choice
  fails because its target is missing, an error event is emitted, and the variables are no
  longer what they were before the call.
\<close>

theorem selectChoice_missing_target_keeps_effects:
  "loadScript dangling_story new_engine = Inr dangling_engine
   \<and> variables (state dangling_engine) = [(''door_open'', VBool False)]
   \<and> selectChoice sample_host 0 dangling_engine
       = ([Error (TargetNotFound ''nowhere'')],
          dangling_engine\<lparr>state := (state dangling_engine)
             \<lparr>variables := [(''door_open'', VBool True)]\<rparr>\<rparr>)
   \<and> variables (state (snd (selectChoice sample_host 0 dangling_engine)))
       \<noteq> variables (state dangling_engine)"
  by code_simp

section \<open>Properties of the script loader\<close>

subsection \<open>What \<open>validate\<close> reports\<close>














lemma addEdge_returned:
  assumes inv: "dag_inv g" and ok: "addEdge f t g = (None, g1)"
  shows "dag_inv g1" and "edge_rel g1 = insert (f, t) (edge_rel g)"
proof -
  have cases: "hasNode g f \<and> hasNode g t \<and> f \<noteq> t
      \<and> ((f, t) \<in> edge_rel g \<and> g1 = g
          \<or> (f, t) \<notin> edge_rel g \<and> (t, f) \<notin> (edge_rel g)\<^sup>*
             \<and> g1 = g\<lparr>outgoing := AList.update f (targets_or_empty (outgoing g) f @ [t]) (outgoing g),
                        incoming := AList.update t (targets_or_empty (incoming g) t @ [f]) (incoming g)\<rparr>)"
    using ok unfolding addEdge_result [OF inv] by (auto split: if_splits)
  then have hf: "hasNode g f" and ht: "hasNode g t" and ne: "f \<noteq> t" by simp_all
  show "dag_inv g1" "edge_rel g1 = insert (f, t) (edge_rel g)"
  proof -
    from cases consider "(f, t) \<in> edge_rel g" "g1 = g"
      | "(f, t) \<notin> edge_rel g" "(t, f) \<notin> (edge_rel g)\<^sup>*"
        "g1 = g\<lparr>outgoing := AList.update f (targets_or_empty (outgoing g) f @ [t]) (outgoing g),
                 incoming := AList.update t (targets_or_empty (incoming g) t @ [f]) (incoming g)\<rparr>"
      by blast
    then have "dag_inv g1 \<and> edge_rel g1 = insert (f, t) (edge_rel g)"
    proof cases
      case 1
      with inv show ?thesis by auto
    next
      case 2
      from dag_inv_new_edge [OF inv hf ht ne 2(1,2)] 2(3) show ?thesis by simp
    qed
    then show "dag_inv g1" "edge_rel g1 = insert (f, t) (edge_rel g)" by simp_all
  qed
qed

lemma addEdges_returned:
  "dag_inv g \<Longrightarrow> addEdges es g = Inr d \<Longrightarrow> dag_inv d \<and> edge_rel d = edge_rel g \<union> set es"
proof (induction es arbitrary: g)
  case Nil
  then show ?case by simp
next
  case (Cons x es)
  obtain f t where x: "x = (f, t)" by (cases x)
  from Cons.prems x obtain g1 where g1: "addEdge f t g = (None, g1)" "addEdges es g1 = Inr d"
    by (auto split: prod.splits option.splits)
  note step = addEdge_returned [OF Cons.prems(1) g1(1)]
  from Cons.IH [OF step(1) g1(2)] step(2) show ?case by (auto simp: x)
qed

lemma new_dag_returned:
  assumes "new_dag ns es = Inr d"
  shows "dag_inv d" and "set es \<subseteq> edge_rel d"
proof -
  from assms obtain g where g: "addNodes ns empty_dag = Inr g" "addEdges es g = Inr d"
    by (auto simp: new_dag_def split: sum.splits)
  from addNodes_calls [OF g(1)] have "dag_inv g"
    by (simp add: dag_inv_fold_calls dag_inv_empty)
  from addEdges_returned [OF this g(2)] show "dag_inv d" and "set es \<subseteq> edge_rel d" by auto
qed


lemma acyclic_graph_passes:
  assumes "new_dag (script_nodes s) (script_edges s) = Inr d"
  shows "check_dag s = []"
proof -
  from topologicalSort_total [OF new_dag_returned(1) [OF assms]] assms show ?thesis
    by (auto simp: check_dag_def)
qed












end
